theory Spec2Isabelle
  imports Complex_Main "HOL-Library.AList" "HOL-Library.Extended_Nat"
begin

section \<open>Constants of the solver\<close>

text \<open>
  The topology sketch of \<^verbatim>\<open>initSolver\<close>: thirteen rows of twenty-five characters.
  Row 0 is the top of the frame.
\<close>

definition CastDuetTopologySketch :: "string list" where
  "CastDuetTopologySketch =
    [''+-H-----+-H---H-+-----H-+'',
     ''|       H       D       H'',
     ''|       |       |       |'',
     ''|       |       |       |'',
     ''+-D-----+-B---D-+-H-----+'',
     ''H       D       B       H'',
     ''|       |       |       |'',
     ''H       B       D       H'',
     ''+-----H-+-B---B-+-D-----+'',
     ''|       |       |       |'',
     ''|       |       |       |'',
     ''H       D       H       /'',
     ''+-B-----+-----D-+------/ '']"

definition PegPosUp :: string where
  "PegPosUp = ''U''"

definition PegPosDown :: string where
  "PegPosDown = ''D''"

definition FreeRingName :: string where
  "FreeRingName = ''FREE''"

section \<open>Position model\<close>

text \<open>
  JavaScript's conversion of an integral number to a string, as done by
  \<^verbatim>\<open>"(" + col + "," + row + ")"\<close>: decimal digits, with a leading minus sign.
\<close>

fun natToString :: "nat \<Rightarrow> string" where
  "natToString n =
     (if n < 10 then [''0123456789'' ! n]
      else natToString (n div 10) @ [''0123456789'' ! (n mod 10)])"

declare natToString.simps [simp del]

definition numberToString :: "int \<Rightarrow> string" where
  "numberToString i = (if i < 0 then ''-'' @ natToString (nat (- i)) else natToString (nat i))"

definition getCellName :: "int \<Rightarrow> int \<Rightarrow> string" where
  "getCellName col row = ''('' @ numberToString col @ '','' @ numberToString row @ '')''"

definition Ring_positionToName :: "int \<Rightarrow> int \<Rightarrow> int \<Rightarrow> int \<Rightarrow> string" where
  "Ring_positionToName pegCol pegRow ringCol ringRow =
     getCellName pegCol pegRow @ ''-'' @ getCellName ringCol ringRow"

definition getRingName :: "string \<Rightarrow> int \<Rightarrow> int \<Rightarrow> int \<Rightarrow> int \<Rightarrow> string" where
  "getRingName pegPos pegCol pegRow ringCol ringRow =
     pegPos @ Ring_positionToName pegCol pegRow ringCol ringRow"

definition isCellFree :: "int \<Rightarrow> int \<Rightarrow> bool" where
  "isCellFree col row \<longleftrightarrow> (col \<le> 0) \<or> (row \<le> 0) \<or> (col \<ge> 4) \<or> (row \<ge> 4)"

definition Ring_isFree :: "int \<Rightarrow> int \<Rightarrow> int \<Rightarrow> int \<Rightarrow> bool" where
  "Ring_isFree pegCol pegRow ringCol ringRow =
     (let pegPartFree = isCellFree pegCol pegRow;
          ringPartFree = isCellFree ringCol ringRow
      in pegPartFree \<and> ringPartFree)"

text \<open>The object built by the constructor \<^verbatim>\<open>Ring\<close>.\<close>

record Ring =
  pegPos :: string
  pegCol :: int
  pegRow :: int
  ringCol :: int
  ringRow :: int
  rotation :: nat
  name :: string
  isFree :: bool

definition new_Ring :: "string \<Rightarrow> int \<Rightarrow> int \<Rightarrow> int \<Rightarrow> int \<Rightarrow> nat \<Rightarrow> Ring" where
  "new_Ring pegPos' pegCol' pegRow' ringCol' ringRow' rotation' =
     \<lparr> pegPos = pegPos', pegCol = pegCol', pegRow = pegRow',
       ringCol = ringCol', ringRow = ringRow', rotation = rotation',
       name = getRingName pegPos' pegCol' pegRow' ringCol' ringRow',
       isFree = Ring_isFree pegCol' pegRow' ringCol' ringRow' \<rparr>"

text \<open>
  \<^verbatim>\<open>generateAllRingsForCell\<close>: the local \<^verbatim>\<open>push\<close> appends the Up ring, then the
  Down ring.
\<close>

definition push :: "int \<Rightarrow> int \<Rightarrow> int \<Rightarrow> int \<Rightarrow> nat \<Rightarrow> Ring list \<Rightarrow> Ring list" where
  "push pegCol' pegRow' ringCol' ringRow' rotation' list =
     list @ [new_Ring PegPosUp pegCol' pegRow' ringCol' ringRow' rotation',
             new_Ring PegPosDown pegCol' pegRow' ringCol' ringRow' rotation']"

definition generateAllRingsForCell :: "int \<Rightarrow> int \<Rightarrow> Ring list" where
  "generateAllRingsForCell pegCol' pegRow' =
     (let list = [];
          list = push pegCol' pegRow' (pegCol' - 1) (pegRow' - 1) 0 list;
          list = push pegCol' pegRow' (pegCol' - 1) pegRow' 1 list;
          list = push pegCol' pegRow' (pegCol' - 1) (pegRow' + 1) 2 list;
          list = push pegCol' pegRow' pegCol' (pegRow' + 1) 3 list;
          list = push pegCol' pegRow' (pegCol' + 1) (pegRow' + 1) 4 list;
          list = push pegCol' pegRow' (pegCol' + 1) pegRow' 5 list;
          list = push pegCol' pegRow' (pegCol' + 1) (pegRow' - 1) 6 list;
          list = push pegCol' pegRow' pegCol' (pegRow' - 1) 7 list
      in list)"

definition getNodeName :: "string \<Rightarrow> int \<Rightarrow> int \<Rightarrow> int \<Rightarrow> int \<Rightarrow> string" where
  "getNodeName pegPos' pegCol' pegRow' ringCol' ringRow' =
     (if Ring_isFree pegCol' pegRow' ringCol' ringRow' then FreeRingName
      else getRingName pegPos' pegCol' pegRow' ringCol' ringRow')"

text \<open>
  The test \<^verbatim>\<open>d > 0 && d < 2\<close> on \<^verbatim>\<open>d = Math.sqrt(Math.pow(a,2) + Math.pow(b,2))\<close>,
  which \<^verbatim>\<open>parsePosition\<close> and \<^verbatim>\<open>getNodeConnections\<close> both make. The square root
  is the real one: on the small integers met here the floating-point root compares with
  0 and 2 as the real root does.
\<close>

definition ringSizeOk :: "int \<Rightarrow> int \<Rightarrow> bool" where
  "ringSizeOk a b =
     (let ringSize = sqrt (real_of_int (a ^ 2 + b ^ 2)) in ringSize > 0 \<and> ringSize < 2)"

section \<open>Topology table\<close>

text \<open>
  The discriminator of a result of \<^verbatim>\<open>parsePosition\<close> is its field \<^verbatim>\<open>isFree\<close>:
  \<^verbatim>\<open>{isFree: true}\<close> or \<^verbatim>\<open>{isFree: false, pegPos, pegCol, pegRow, ringCol, ringRow}\<close>.
\<close>

datatype Position = FreePosition | RingPosition string int int int int

text \<open>The eight keys of the object \<^verbatim>\<open>dents\<close> (upper case: \<^verbatim>\<open>tl\<close> is taken).\<close>

datatype DentName = TL | TR | BL | BR | LT | LB | RT | RB

definition getSketchDent :: "string list \<Rightarrow> int \<Rightarrow> int \<Rightarrow> char" where
  "getSketchDent sketch row col =
     (let ok = (row \<ge> 0 \<and> row < int (length sketch) \<and> col \<ge> 0
                \<and> col < int (length (sketch ! nat row)))
      in if ok then sketch ! nat row ! nat col else CHR ''B'')"

text \<open>
  \<^verbatim>\<open>getCellDents\<close>: the object literal \<^verbatim>\<open>dents\<close> is the function \<open>dents\<close> on its
  keys; the loop that deletes the invalid entries makes the result partial.
\<close>

definition getCellDents :: "int \<Rightarrow> int \<Rightarrow> DentName \<Rightarrow> char option" where
  "getCellDents col row =
     (let sketch = CastDuetTopologySketch;
          skTopRow = 12 - row * 4;
          skBottomRow = skTopRow + 4;
          skLeftCol = (col - 1) * 8;
          skRightCol = skLeftCol + 8;
          dents = (\<lambda>d. case d of
              TL \<Rightarrow> getSketchDent sketch skTopRow (skLeftCol + 2)
            | TR \<Rightarrow> getSketchDent sketch skTopRow (skRightCol - 2)
            | BL \<Rightarrow> getSketchDent sketch skBottomRow (skLeftCol + 2)
            | BR \<Rightarrow> getSketchDent sketch skBottomRow (skRightCol - 2)
            | LT \<Rightarrow> getSketchDent sketch (skTopRow + 1) skLeftCol
            | LB \<Rightarrow> getSketchDent sketch (skBottomRow - 1) skLeftCol
            | RT \<Rightarrow> getSketchDent sketch (skTopRow + 1) skRightCol
            | RB \<Rightarrow> getSketchDent sketch (skBottomRow - 1) skRightCol)
      in (\<lambda>d. let dent = dents d
               in if dent \<noteq> CHR ''D'' \<and> dent \<noteq> CHR ''H'' \<and> dent \<noteq> CHR ''B''
                  then None else Some dent))"

section \<open>Graph builder\<close>

text \<open>
  A graph node. \<open>ring = None\<close> is the empty object \<^verbatim>\<open>{}\<close> of the initial FREE entry.
  \<open>connectsTo\<close> is an object used as a set: its keys, in insertion order. \<open>dist\<close> and
  \<open>prev\<close> are the fields that \<^verbatim>\<open>dijkstra\<close> writes; \<open>None\<close> is \<^verbatim>\<open>undefined\<close>, which
  is also what reading a field that was never written gives.
\<close>

record Node =
  ring :: "Ring option"
  name :: string
  connectsTo :: "string list"
  dist :: "enat option"
  prev :: "string option"

type_synonym Graph = "(string \<times> Node) list"

definition new_Node :: "Ring \<Rightarrow> Node" where
  "new_Node ring' =
     \<lparr> ring = Some ring',
       name = getNodeName (pegPos ring') (pegCol ring') (pegRow ring') (ringCol ring') (ringRow ring'),
       connectsTo = [],
       dist = None,
       prev = None \<rparr>"

text \<open>\<^verbatim>\<open>obj[key] = true\<close> on an object used as a set: a new key goes last.\<close>

definition addKey :: "string \<Rightarrow> string list \<Rightarrow> string list" where
  "addKey key keys = (if key \<in> set keys then keys else keys @ [key])"

text \<open>
  The local function \<^verbatim>\<open>connect\<close> of \<^verbatim>\<open>getNodeConnections\<close>, with the variables it
  closes over (\<open>ring'\<close>, \<open>dents\<close>) and the set \<^verbatim>\<open>node.connectsTo\<close> it writes as
  parameters. A rotation passes no ring deltas: they default to 0.
\<close>

definition connect ::
  "Ring \<Rightarrow> (DentName \<Rightarrow> char option) \<Rightarrow> DentName \<Rightarrow> int \<Rightarrow> int \<Rightarrow> int \<Rightarrow> int
     \<Rightarrow> string list \<Rightarrow> string list" where
  "connect ring' dents dentName colDelta rowDelta ringColDelta ringRowDelta conns =
     (let newPegCol = pegCol ring' + colDelta;
          newPegRow = pegRow ring' + rowDelta;
          dent = dents dentName;
          dentOk = ((pegPos ring' = PegPosUp \<and> (dent = Some CHR ''D'' \<or> dent = Some CHR ''B''))
                  \<or> (pegPos ring' = PegPosDown \<and> (dent = Some CHR ''H'' \<or> dent = Some CHR ''B'')))
      in if dentOk
         then addKey (getNodeName (pegPos ring') newPegCol newPegRow
                        (ringCol ring' + ringColDelta) (ringRow ring' + ringRowDelta)) conns
         else conns)"

text \<open>The \<^verbatim>\<open>switch\<close> on \<^verbatim>\<open>ring.rotation\<close>: the 45-degree rotations and the slides.\<close>

definition rotationMoves ::
  "Ring \<Rightarrow> (DentName \<Rightarrow> char option) \<Rightarrow> bool \<Rightarrow> string list \<Rightarrow> string list" where
  "rotationMoves ring' dents ringPartFree conns =
     (if rotation ring' = 0 then
        (let conns = connect ring' dents LT (- 1) 0 0 0 conns;
             conns = connect ring' dents BR 0 (- 1) 0 0 conns
         in conns)
      else if rotation ring' = 1 then
        (let conns = connect ring' dents TR 0 1 0 0 conns;
             conns = connect ring' dents BR 0 (- 1) 0 0 conns
         in if ringPartFree then
              (let conns = connect ring' dents TL 0 1 0 1 conns;
                   conns = connect ring' dents BL 0 (- 1) 0 (- 1) conns
               in conns)
            else conns)
      else if rotation ring' = 2 then
        (let conns = connect ring' dents LB (- 1) 0 0 0 conns;
             conns = connect ring' dents TR 0 1 0 0 conns
         in conns)
      else if rotation ring' = 3 then
        (let conns = connect ring' dents LB (- 1) 0 0 0 conns;
             conns = connect ring' dents RB 1 0 0 0 conns
         in if ringPartFree then
              (let conns = connect ring' dents LT (- 1) 0 (- 1) 0 conns;
                   conns = connect ring' dents RT 1 0 1 0 conns
               in conns)
            else conns)
      else if rotation ring' = 4 then
        (let conns = connect ring' dents TL 0 1 0 0 conns;
             conns = connect ring' dents RB 1 0 0 0 conns
         in conns)
      else if rotation ring' = 5 then
        (let conns = connect ring' dents TL 0 1 0 0 conns;
             conns = connect ring' dents BL 0 (- 1) 0 0 conns
         in if ringPartFree then
              (let conns = connect ring' dents TR 0 1 0 1 conns;
                   conns = connect ring' dents BR 0 (- 1) 0 (- 1) conns
               in conns)
            else conns)
      else if rotation ring' = 6 then
        (let conns = connect ring' dents RT 1 0 0 0 conns;
             conns = connect ring' dents BL 0 (- 1) 0 0 conns
         in conns)
      else if rotation ring' = 7 then
        (let conns = connect ring' dents LT (- 1) 0 0 0 conns;
             conns = connect ring' dents RT 1 0 0 0 conns
         in if ringPartFree then
              (let conns = connect ring' dents LB (- 1) 0 (- 1) 0 conns;
                   conns = connect ring' dents RB 1 0 1 0 conns
               in conns)
            else conns)
      else conns)"

text \<open>
  The double loop over \<^verbatim>\<open>x\<close> and \<^verbatim>\<open>y\<close> from -1 to +1, which skips \<^verbatim>\<open>x == 0 && y == 0\<close>:
  the rotations of a free solid part around the peg.
\<close>

definition freeRotationStep :: "Ring \<Rightarrow> int \<times> int \<Rightarrow> string list \<Rightarrow> string list" where
  "freeRotationStep ring' xy conns =
     (case xy of (x, y) \<Rightarrow>
        if x = 0 \<and> y = 0 then conns
        else
          (let newRingCol = ringCol ring' + x;
               newRingRow = ringRow ring' + y
           in if isCellFree newRingCol newRingRow
                 \<and> ringSizeOk (pegCol ring' - newRingCol) (pegRow ring' - newRingRow)
              then addKey (getNodeName (pegPos ring') (pegCol ring') (pegRow ring')
                             newRingCol newRingRow) conns
              else conns))"

definition freeRotations :: "Ring \<Rightarrow> string list \<Rightarrow> string list" where
  "freeRotations ring' conns =
     fold (freeRotationStep ring')
       (concat (map (\<lambda>x. map (\<lambda>y. (x, y)) [- 1, 0, 1]) [- 1, 0, 1])) conns"

text \<open>The 180-degree turn: the last statement of \<^verbatim>\<open>getNodeConnections\<close>.\<close>

definition flipTarget :: "Ring \<Rightarrow> string" where
  "flipTarget ring' =
     getNodeName (if pegPos ring' = PegPosDown then PegPosUp else PegPosDown)
       (ringCol ring') (ringRow ring') (pegCol ring') (pegRow ring')"

text \<open>
  \<^verbatim>\<open>getNodeConnections\<close> writes \<^verbatim>\<open>node.connectsTo\<close>; the model returns the node
  updated. It is only called on the nodes made by \<^verbatim>\<open>new Node(ring)\<close>, which carry a
  ring; the placeholder \<^verbatim>\<open>{}\<close> of the initial FREE entry never reaches it.
\<close>

definition getNodeConnections :: "Node \<Rightarrow> Node" where
  "getNodeConnections node =
     (case ring node of
        None \<Rightarrow> node
      | Some ring' \<Rightarrow>
          (let dents = getCellDents (pegCol ring') (pegRow ring');
               ringPartFree = isCellFree (ringCol ring') (ringRow ring');
               conns = rotationMoves ring' dents ringPartFree (connectsTo node);
               conns = (if ringPartFree then freeRotations ring' conns else conns);
               conns = addKey (flipTarget ring') conns
           in node\<lparr>connectsTo := conns\<rparr>))"

text \<open>
  \<^verbatim>\<open>parseTopologySketch\<close>. The table \<^verbatim>\<open>nodes\<close> is an object with string keys, none
  of them an array index: its keys are enumerated in insertion order and an assignment
  to an existing key keeps the key's place, which is \<open>AList.update\<close>.
\<close>

definition allCells :: "(int \<times> int) list" where
  "allCells = concat (map (\<lambda>col. map (\<lambda>row. (col, row)) [0, 1, 2, 3, 4]) [0, 1, 2, 3, 4])"

definition insertNode :: "Ring \<Rightarrow> Graph \<Rightarrow> Graph" where
  "insertNode ring' nodes = (let node = new_Node ring' in AList.update (name node) node nodes)"

definition generateNodes :: "Graph \<Rightarrow> Graph" where
  "generateNodes nodes =
     fold (\<lambda>(col, row) nodes. fold insertNode (generateAllRingsForCell col row) nodes)
       allCells nodes"

text \<open>One round of the loop \<^verbatim>\<open>for (var n in nodes)\<close>.\<close>

definition connectNode :: "string \<Rightarrow> Graph \<Rightarrow> Graph" where
  "connectNode n nodes =
     (if n = FreeRingName then nodes
      else case map_of nodes n of
        None \<Rightarrow> nodes
      | Some node \<Rightarrow>
          (let node = getNodeConnections node;
               nodes = AList.update n node nodes
           in if FreeRingName \<in> set (connectsTo node)
              then (case map_of nodes FreeRingName of
                      None \<Rightarrow> nodes
                    | Some free \<Rightarrow>
                        AList.update FreeRingName
                          (free\<lparr>connectsTo := addKey (name node) (connectsTo free)\<rparr>) nodes)
              else nodes))"

definition parseTopologySketch :: "Graph" where
  "parseTopologySketch =
     (let nodes = [(FreeRingName, \<lparr> ring = None, name = FreeRingName, connectsTo = [],
                                    dist = None, prev = None \<rparr>)];
          nodes = generateNodes nodes
      in fold connectNode (map fst nodes) nodes)"

definition CastDuetGraphNodes :: "Graph" where
  "CastDuetGraphNodes = parseTopologySketch"

section \<open>Shortest-path engine\<close>

text \<open>
  The only exception the solver can raise: reading or writing a field of
  \<^verbatim>\<open>undefined\<close>, when a name is looked up in the table and is not a key of it.
\<close>

datatype error = TypeError

text \<open>
  The scan \<^verbatim>\<open>for (let n in q)\<close> for the unvisited node of minimum distance. The
  accumulator is the pair of \<^verbatim>\<open>u\<close> and \<^verbatim>\<open>u_dist\<close>. A comparison with an
  \<^verbatim>\<open>undefined\<close> distance is false.
\<close>

fun findMin :: "Graph \<Rightarrow> string list \<Rightarrow> string option \<times> enat \<Rightarrow> error + string option \<times> enat" where
  "findMin nodes [] acc = Inr acc"
| "findMin nodes (n # q) (u, u_dist) =
     (case map_of nodes n of
        None \<Rightarrow> Inl TypeError
      | Some node \<Rightarrow>
          (case dist node of
             None \<Rightarrow> findMin nodes q (u, u_dist)
           | Some d \<Rightarrow>
               if d < u_dist then findMin nodes q (Some n, d)
               else findMin nodes q (u, u_dist)))"

text \<open>
  The scan \<^verbatim>\<open>for (let v in nodes[u].connectsTo)\<close> of the neighbours of \<^verbatim>\<open>u\<close>.
  The table is returned as it stands when the exception is raised.
\<close>

fun relax :: "string \<Rightarrow> enat \<Rightarrow> string list \<Rightarrow> Graph \<Rightarrow> (error + unit) \<times> Graph" where
  "relax u u_dist [] nodes = (Inr (), nodes)"
| "relax u u_dist (v # vs) nodes =
     (let alt = u_dist + 1
      in case map_of nodes v of
           None \<Rightarrow> (Inl TypeError, nodes)
         | Some vnode \<Rightarrow>
             (case dist vnode of
                None \<Rightarrow> relax u u_dist vs nodes
              | Some d \<Rightarrow>
                  if alt < d
                  then relax u u_dist vs
                         (AList.update v (vnode\<lparr>dist := Some alt, prev := Some u\<rparr>) nodes)
                  else relax u u_dist vs nodes))"

text \<open>
  The loop \<^verbatim>\<open>while (qlen > 0)\<close>: the recursion is on the counter \<^verbatim>\<open>qlen\<close>, which
  every round decrements. \<^verbatim>\<open>!u\<close> holds when no node was chosen, and would hold for
  an empty name. The result is the returned value (\<open>None\<close> for \<^verbatim>\<open>undefined\<close>, else
  the table) and the table as the call leaves it.
\<close>

fun dijkstraLoop :: "nat \<Rightarrow> string list \<Rightarrow> Graph \<Rightarrow> (error + Graph option) \<times> Graph" where
  "dijkstraLoop 0 q nodes = (Inr (Some nodes), nodes)"
| "dijkstraLoop (Suc qlen) q nodes =
     (case findMin nodes q (None, \<infinity>) of
        Inl e \<Rightarrow> (Inl e, nodes)
      | Inr (None, u_dist) \<Rightarrow> (Inr None, nodes)
      | Inr (Some u, u_dist) \<Rightarrow>
          if u = [] then (Inr None, nodes)
          else
            (case map_of nodes u of
               None \<Rightarrow> (Inl TypeError, nodes)
             | Some unode \<Rightarrow>
                 (case relax u u_dist (connectsTo unode) nodes of
                    (Inl e, nodes) \<Rightarrow> (Inl e, nodes)
                  | (Inr _, nodes) \<Rightarrow> dijkstraLoop qlen (remove1 u q) nodes)))"

definition dijkstra :: "Graph \<Rightarrow> string \<Rightarrow> (error + Graph option) \<times> Graph" where
  "dijkstra nodes sourceNode =
     (let q = map fst nodes;
          qlen = length nodes;
          nodes = map (\<lambda>(n, node). (n, node\<lparr>dist := Some \<infinity>, prev := None\<rparr>)) nodes
      in case map_of nodes sourceNode of
           None \<Rightarrow> (Inl TypeError, nodes)
         | Some source \<Rightarrow>
             dijkstraLoop qlen q (AList.update sourceNode (source\<lparr>dist := Some 0\<rparr>) nodes))"

section \<open>Facade\<close>

text \<open>
  The match of \<^verbatim>\<open>/^([UD])\(([0-4]),([0-4])\)-\(([0-4]),([0-4])\)$/\<close>: the pattern is
  anchored at both ends and every atom takes one character, so it matches strings
  of twelve characters only. The result is the five captured groups.
\<close>

definition isUD :: "char \<Rightarrow> bool" where
  "isUD c \<longleftrightarrow> c = CHR ''U'' \<or> c = CHR ''D''"

definition is04 :: "char \<Rightarrow> bool" where
  "is04 c \<longleftrightarrow> c = CHR ''0'' \<or> c = CHR ''1'' \<or> c = CHR ''2'' \<or> c = CHR ''3'' \<or> c = CHR ''4''"

fun posCheck :: "string \<Rightarrow> (string \<times> string \<times> string \<times> string \<times> string) option" where
  "posCheck [p, o1, a, k1, b, e1, m, o2, c, k2, d, e2] =
     (if isUD p \<and> o1 = CHR ''('' \<and> is04 a \<and> k1 = CHR '','' \<and> is04 b \<and> e1 = CHR '')''
         \<and> m = CHR ''-'' \<and> o2 = CHR ''('' \<and> is04 c \<and> k2 = CHR '','' \<and> is04 d \<and> e2 = CHR '')''
      then Some ([p], [a], [b], [c], [d]) else None)"
| "posCheck _ = None"

text \<open>\<^verbatim>\<open>parseInt\<close> on a string of decimal digits, which is all the pattern captures.\<close>

definition digitValue :: "char \<Rightarrow> int" where
  "digitValue c = int (of_char c) - 48"

definition parseInt :: "string \<Rightarrow> int" where
  "parseInt s = foldl (\<lambda>n c. 10 * n + digitValue c) 0 s"

definition parsePosition :: "string \<Rightarrow> Position option" where
  "parsePosition positionAsString =
     (if positionAsString = ''FREE'' then Some FreePosition
      else case posCheck positionAsString of
        None \<Rightarrow> None
      | Some (g1, g2, g3, g4, g5) \<Rightarrow>
          (let pegPos' = g1;
               pegCol' = parseInt g2;
               pegRow' = parseInt g3;
               ringCol' = parseInt g4;
               ringRow' = parseInt g5
           in if ringSizeOk (pegRow' - ringRow') (pegCol' - ringCol')
              then Some (RingPosition pegPos' pegCol' pegRow' ringCol' ringRow')
              else None))"

text \<open>
  The loop \<^verbatim>\<open>while (node.prev)\<close> of \<^verbatim>\<open>findSolution\<close>, which follows the
  predecessors back from the target. Nothing in the loop bounds it, so it is a partial
  function: \<open>None\<close> is a run that never ends. When \<^verbatim>\<open>nodes[node.prev]\<close> is
  \<^verbatim>\<open>undefined\<close>, the next test of \<^verbatim>\<open>node.prev\<close> raises.
\<close>

partial_function (option) walk :: "Graph \<Rightarrow> Node \<Rightarrow> string list \<Rightarrow> (error + string list) option" where
  "walk nodes node solution =
     (case prev node of
        None \<Rightarrow> Some (Inr solution)
      | Some p \<Rightarrow>
          if p = [] then Some (Inr solution)
          else (case map_of nodes p of
                  None \<Rightarrow> Some (Inl TypeError)
                | Some node' \<Rightarrow> walk nodes node' (p # solution)))"

declare walk.simps [code]

text \<open>
  \<^verbatim>\<open>findSolution\<close>, with the table \<^verbatim>\<open>CastDuetGraphNodes\<close> it works on as a
  parameter. The result is \<open>None\<close> when the call never returns; otherwise the
  returned value (\<open>Inr None\<close> is \<^verbatim>\<open>undefined\<close>) or the exception, and the table as
  the call leaves it. The value returned by \<^verbatim>\<open>dijkstra\<close> is not looked at.
\<close>

definition findSolution ::
  "Graph \<Rightarrow> string \<Rightarrow> string \<Rightarrow> ((error + string list option) \<times> Graph) option" where
  "findSolution nodes startPosition targetPosition =
     (if parsePosition startPosition \<noteq> None \<and> parsePosition targetPosition \<noteq> None then
        (case dijkstra nodes startPosition of
           (Inl e, nodes) \<Rightarrow> Some (Inl e, nodes)
         | (Inr _, nodes) \<Rightarrow>
             (case map_of nodes targetPosition of
                None \<Rightarrow> Some (Inl TypeError, nodes)
              | Some node \<Rightarrow>
                  (case walk nodes node [targetPosition] of
                     None \<Rightarrow> None
                   | Some (Inl e) \<Rightarrow> Some (Inl e, nodes)
                   | Some (Inr solution) \<Rightarrow> Some (Inr (Some solution), nodes))))
      else Some (Inr None, nodes))"

section \<open>Definitions used to state the properties\<close>

text \<open>
  The canonical name format applied to a parsed position: \<^verbatim>\<open>FREE\<close> for the free
  position, the ring name otherwise.
\<close>

definition encode :: "Position \<Rightarrow> string" where
  "encode pos = (case pos of FreePosition \<Rightarrow> FreeRingName
                 | RingPosition p a b c d \<Rightarrow> getRingName p a b c d)"


text \<open>
  The sketch indices (row, column) that \<^verbatim>\<open>getCellDents\<close> reads for a boundary
  slot of a cell, and the bounds test of \<^verbatim>\<open>getSketchDent\<close>.
\<close>

definition sketchIndex :: "int \<Rightarrow> int \<Rightarrow> DentName \<Rightarrow> int \<times> int" where
  "sketchIndex col row d =
     (case d of
        TL \<Rightarrow> (12 - row * 4, (col - 1) * 8 + 2)
      | TR \<Rightarrow> (12 - row * 4, (col - 1) * 8 + 6)
      | BL \<Rightarrow> (16 - row * 4, (col - 1) * 8 + 2)
      | BR \<Rightarrow> (16 - row * 4, (col - 1) * 8 + 6)
      | LT \<Rightarrow> (13 - row * 4, (col - 1) * 8)
      | LB \<Rightarrow> (15 - row * 4, (col - 1) * 8)
      | RT \<Rightarrow> (13 - row * 4, col * 8)
      | RB \<Rightarrow> (15 - row * 4, col * 8))"

definition insideSketch :: "string list \<Rightarrow> int \<times> int \<Rightarrow> bool" where
  "insideSketch sketch rc =
     (0 \<le> fst rc \<and> fst rc < int (length sketch)
      \<and> 0 \<le> snd rc \<and> snd rc < int (length (sketch ! nat (fst rc))))"

text \<open>
  The move rules as a catalogue. A dent marker is compatible with a peg orientation
  when an Up peg meets D or B and a Down peg meets H or B; an absent marker is
  compatible with neither. The slots that a rotation index tests, the extra slots of
  its slide moves, and the step of the peg through a slot: one column to the left or
  right through a slot of the left or right side, one row up or down through a slot of
  the top or bottom side.
\<close>

definition dentCompatible :: "string \<Rightarrow> char option \<Rightarrow> bool" where
  "dentCompatible p marker \<longleftrightarrow>
     (p = PegPosUp \<and> (marker = Some CHR ''D'' \<or> marker = Some CHR ''B''))
     \<or> (p = PegPosDown \<and> (marker = Some CHR ''H'' \<or> marker = Some CHR ''B''))"

definition rotationSlots :: "nat \<Rightarrow> DentName list" where
  "rotationSlots k =
     (if k = 0 then [LT, BR] else if k = 1 then [TR, BR] else if k = 2 then [LB, TR]
      else if k = 3 then [LB, RB] else if k = 4 then [TL, RB] else if k = 5 then [TL, BL]
      else if k = 6 then [RT, BL] else if k = 7 then [LT, RT] else [])"

definition slideSlots :: "nat \<Rightarrow> DentName list" where
  "slideSlots k =
     (if k = 1 then [TL, BL] else if k = 3 then [LT, RT] else if k = 5 then [TR, BR]
      else if k = 7 then [LB, RB] else [])"

definition slotDelta :: "DentName \<Rightarrow> int \<times> int" where
  "slotDelta d =
     (case d of
        TL \<Rightarrow> (0, 1) | TR \<Rightarrow> (0, 1) | BL \<Rightarrow> (0, - 1) | BR \<Rightarrow> (0, - 1)
      | LT \<Rightarrow> (- 1, 0) | LB \<Rightarrow> (- 1, 0) | RT \<Rightarrow> (1, 0) | RB \<Rightarrow> (1, 0))"

text \<open>The node that a legal rotation, or a legal slide, through a slot leads to.\<close>

definition rotationTarget :: "Ring \<Rightarrow> DentName \<Rightarrow> string" where
  "rotationTarget r d =
     getNodeName (pegPos r) (pegCol r + fst (slotDelta d)) (pegRow r + snd (slotDelta d))
       (ringCol r) (ringRow r)"

definition slideTarget :: "Ring \<Rightarrow> DentName \<Rightarrow> string" where
  "slideTarget r d =
     getNodeName (pegPos r) (pegCol r + fst (slotDelta d)) (pegRow r + snd (slotDelta d))
       (ringCol r + fst (slotDelta d)) (ringRow r + snd (slotDelta d))"

text \<open>All the rings that \<^verbatim>\<open>parseTopologySketch\<close> enumerates, in the order of its two loops.\<close>

definition allRings :: "Ring list" where
  "allRings = concat (map (\<lambda>(col, row). generateAllRingsForCell col row) allCells)"

text \<open>The name of the node of a ring, as the constructor \<^verbatim>\<open>Node\<close> computes it.\<close>

definition nodeNameOf :: "Ring \<Rightarrow> string" where
  "nodeNameOf r = getNodeName (pegPos r) (pegCol r) (pegRow r) (ringCol r) (ringRow r)"

text \<open>
  The ring name with the peg and ring cells swapped and the peg orientation inverted:
  the 180-degree flip of a ring.
\<close>

definition flippedName :: "Ring \<Rightarrow> string" where
  "flippedName r =
     getRingName (if pegPos r = PegPosUp then PegPosDown else PegPosUp)
       (ringCol r) (ringRow r) (pegCol r) (pegRow r)"

text \<open>
  The edges of the node of a ring, by kind. \<open>legalMoves\<close>: the targets of the candidate
  rotations of the ring's rotation index, and of its slides when the ring cell is
  outside the frame, whose tested dent marker around the peg cell is present and
  compatible. \<open>freeTurns\<close>: when the ring cell is outside the frame, the ring cell moved
  by one of the eight king's steps to a cell that is outside the frame and one step from
  the peg cell.
\<close>

definition deltas8 :: "(int \<times> int) list" where
  "deltas8 = [(- 1, - 1), (- 1, 0), (- 1, 1), (0, 1), (1, 1), (1, 0), (1, - 1), (0, - 1)]"

definition legalMoves :: "Ring \<Rightarrow> string list" where
  "legalMoves r =
     (let dents = getCellDents (pegCol r) (pegRow r)
      in map (rotationTarget r)
           (filter (\<lambda>s. dentCompatible (pegPos r) (dents s)) (rotationSlots (rotation r)))
         @ (if isCellFree (ringCol r) (ringRow r)
            then map (slideTarget r)
                   (filter (\<lambda>s. dentCompatible (pegPos r) (dents s)) (slideSlots (rotation r)))
            else []))"

definition freeTurns :: "Ring \<Rightarrow> string list" where
  "freeTurns r =
     (if isCellFree (ringCol r) (ringRow r)
      then map (\<lambda>(x, y). getNodeName (pegPos r) (pegCol r) (pegRow r) (ringCol r + x) (ringRow r + y))
             (filter (\<lambda>(x, y). isCellFree (ringCol r + x) (ringRow r + y)
                        \<and> ringSizeOk (pegCol r - (ringCol r + x)) (pegRow r - (ringRow r + y)))
                deltas8)
      else [])"

text \<open>An edge of a graph: the second name is in the \<^verbatim>\<open>connectsTo\<close> set of the first node.\<close>

definition edge :: "Graph \<Rightarrow> string \<Rightarrow> string \<Rightarrow> bool" where
  "edge g a b = (case map_of g a of None \<Rightarrow> False | Some nd \<Rightarrow> b \<in> set (connectsTo nd))"

text \<open>
  What a call of \<^verbatim>\<open>findSolution\<close> must leave alone: the keys of the node table, in
  order, with the ring, the name and the adjacency set of every node. The fields
  \<open>dist\<close> and \<open>prev\<close> are left out.
\<close>

definition skeleton :: "Graph \<Rightarrow> (string \<times> Ring option \<times> string \<times> string list) list" where
  "skeleton g = map (\<lambda>(k, nd). (k, ring nd, name nd, connectsTo nd)) g"

section \<open>Definitions used in the proofs\<close>

text \<open>
  The rotation index of a step from the peg cell to the ring cell, as
  \<^verbatim>\<open>generateAllRingsForCell\<close> numbers the eight neighbours.
\<close>

definition rotationOf :: "int \<Rightarrow> int \<Rightarrow> nat" where
  "rotationOf dx dy =
     (if dx = - 1 \<and> dy = - 1 then 0 else if dx = - 1 \<and> dy = 0 then 1
      else if dx = - 1 \<and> dy = 1 then 2 else if dx = 0 \<and> dy = 1 then 3
      else if dx = 1 \<and> dy = 1 then 4 else if dx = 1 \<and> dy = 0 then 5
      else if dx = 1 \<and> dy = - 1 then 6 else 7)"

text \<open>The initial FREE entry of the node table.\<close>

definition freePlaceholder :: Node where
  "freePlaceholder = \<lparr> ring = None, name = FreeRingName, connectsTo = [], dist = None, prev = None \<rparr>"

text \<open>Every node is stored under its own name.\<close>

definition wellNamed :: "Graph \<Rightarrow> bool" where
  "wellNamed g \<longleftrightarrow> (\<forall>k nd. map_of g k = Some nd \<longrightarrow> name nd = k)"

text \<open>
  The placements that give the ring nodes of the graph: an orientation, a peg cell
  among the enumerated ones, a ring cell one step away, not both outside the frame.
\<close>

definition validPlacement :: "string \<Rightarrow> int \<Rightarrow> int \<Rightarrow> int \<Rightarrow> int \<Rightarrow> bool" where
  "validPlacement p a b c d \<longleftrightarrow>
     (p = PegPosUp \<or> p = PegPosDown) \<and> 0 \<le> a \<and> a \<le> 4 \<and> 0 \<le> b \<and> b \<le> 4
     \<and> ringSizeOk (c - a) (d - b) \<and> \<not> Ring_isFree a b c d"

definition ringOf :: "string \<Rightarrow> int \<Rightarrow> int \<Rightarrow> int \<Rightarrow> int \<Rightarrow> Ring" where
  "ringOf p a b c d = new_Ring p a b c d (rotationOf (c - a) (d - b))"

definition nodeOf :: "string \<Rightarrow> int \<Rightarrow> int \<Rightarrow> int \<Rightarrow> int \<Rightarrow> Node" where
  "nodeOf p a b c d = getNodeConnections (new_Node (ringOf p a b c d))"

text \<open>The node table after the first loop of \<^verbatim>\<open>parseTopologySketch\<close>.\<close>

definition initialNodes :: Graph where
  "initialNodes = generateNodes [(FreeRingName, freePlaceholder)]"

text \<open>
  The certificate of connectivity: the number of moves from every ring node to FREE,
  indexed by orientation (Up first), peg column, peg row and rotation index, with 0 for
  a placement outside the frame. \<open>targets\<close> lists the placements that the move rules
  lead to; the certificate is right when every ring node has a target that is outside
  the frame or has a smaller number.
\<close>

definition distanceTable :: "nat list list list list" where
  "distanceTable =
  [[[[0, 0, 0, 0, 3, 0, 0, 0], [0, 0, 0, 0, 2, 2, 0, 0],
     [0, 0, 0, 0, 3, 3, 2, 0], [0, 0, 0, 0, 0, 2, 2, 0],
     [0, 0, 0, 0, 0, 0, 3, 0]],
    [[0, 0, 0, 2, 32, 0, 0, 0], [2, 1, 2, 5, 28, 31, 1, 2],
     [8, 9, 10, 19, 16, 16, 19, 5], [11, 10, 11, 11, 12, 15, 15, 14],
     [0, 0, 0, 0, 0, 0, 2, 3]],
    [[0, 0, 2, 33, 37, 0, 0, 0], [1, 3, 6, 27, 24, 24, 3, 2],
     [4, 7, 20, 17, 23, 23, 23, 20], [8, 21, 19, 18, 19, 22, 22, 11],
     [2, 0, 0, 0, 0, 0, 2, 3]],
    [[0, 0, 34, 36, 0, 0, 0, 0], [32, 34, 33, 32, 29, 30, 31, 31],
     [21, 21, 18, 24, 27, 28, 29, 23], [12, 15, 16, 17, 18, 18, 19, 21],
     [2, 0, 0, 0, 0, 0, 0, 2]],
    [[0, 0, 37, 0, 0, 0, 0, 0], [0, 37, 2, 0, 0, 0, 0, 0],
     [38, 3, 2, 0, 0, 0, 0, 0], [2, 2, 0, 0, 0, 0, 0, 0],
     [3, 0, 0, 0, 0, 0, 0, 0]]],
   [[[0, 0, 0, 0, 3, 0, 0, 0], [0, 0, 0, 0, 7, 2, 0, 0],
     [0, 0, 0, 0, 12, 8, 3, 0], [0, 0, 0, 0, 0, 11, 9, 0],
     [0, 0, 0, 0, 0, 0, 12, 0]],
    [[0, 0, 0, 3, 2, 0, 0, 0], [2, 1, 1, 6, 5, 3, 1, 1],
     [1, 2, 1, 13, 9, 8, 7, 4], [2, 1, 2, 2, 1, 21, 19, 18],
     [0, 0, 0, 0, 0, 0, 20, 12]],
    [[0, 0, 2, 3, 33, 0, 0, 0], [33, 30, 18, 21, 21, 33, 35, 34],
     [29, 17, 14, 10, 13, 20, 32, 26], [17, 14, 1, 2, 1, 14, 19, 18],
     [13, 0, 0, 0, 0, 0, 15, 19]],
    [[0, 0, 4, 32, 0, 0, 0, 0], [36, 25, 22, 22, 37, 36, 36, 35],
     [25, 24, 23, 20, 1, 2, 1, 31], [24, 21, 1, 1, 2, 1, 1, 25],
     [20, 0, 0, 0, 0, 0, 0, 16]],
    [[0, 0, 32, 0, 0, 0, 0, 0], [0, 31, 28, 0, 0, 0, 0, 0],
     [30, 27, 19, 0, 0, 0, 0, 0], [26, 18, 0, 0, 0, 0, 0, 0],
     [17, 0, 0, 0, 0, 0, 0, 0]]]]"

definition rank :: "string \<Rightarrow> int \<Rightarrow> int \<Rightarrow> int \<Rightarrow> int \<Rightarrow> nat" where
  "rank p a b c d =
     distanceTable ! (if p = PegPosUp then 0 else 1) ! nat a ! nat b ! rotationOf (c - a) (d - b)"

definition flipPeg :: "string \<Rightarrow> string" where
  "flipPeg p = (if p = PegPosDown then PegPosUp else PegPosDown)"

definition targets :: "string \<Rightarrow> int \<Rightarrow> int \<Rightarrow> int \<Rightarrow> int \<Rightarrow> (string \<times> int \<times> int \<times> int \<times> int) list" where
  "targets p a b c d =
     (let k = rotationOf (c - a) (d - b);
          dents = getCellDents a b;
          free = isCellFree c d
      in map (\<lambda>s. (p, a + fst (slotDelta s), b + snd (slotDelta s), c, d))
           (filter (\<lambda>s. dentCompatible p (dents s)) (rotationSlots k))
         @ (if free
            then map (\<lambda>s. (p, a + fst (slotDelta s), b + snd (slotDelta s),
                              c + fst (slotDelta s), d + snd (slotDelta s)))
                   (filter (\<lambda>s. dentCompatible p (dents s)) (slideSlots k))
                 @ map (\<lambda>(x, y). (p, a, b, c + x, d + y))
                     (filter (\<lambda>(x, y). isCellFree (c + x) (d + y)
                                \<and> ringSizeOk (a - (c + x)) (b - (d + y))) deltas8)
            else [])
         @ [(flipPeg p, c, d, a, b)])"

definition closer :: "nat \<Rightarrow> string \<times> int \<times> int \<times> int \<times> int \<Rightarrow> bool" where
  "closer n t = (case t of (p, a, b, c, d) \<Rightarrow> Ring_isFree a b c d \<or> rank p a b c d < n)"

definition certStep :: "string \<Rightarrow> int \<Rightarrow> int \<Rightarrow> int \<Rightarrow> int \<Rightarrow> bool" where
  "certStep p a b c d = list_ex (closer (rank p a b c d)) (targets p a b c d)"

definition certCell :: "int \<Rightarrow> int \<Rightarrow> bool" where
  "certCell a b =
     list_all (\<lambda>p. list_all (\<lambda>(x, y). Ring_isFree a b (a + x) (b + y) \<or> certStep p a b (a + x) (b + y))
                    deltas8) [PegPosUp, PegPosDown]"

definition certAll :: bool where
  "certAll = list_all (\<lambda>(a, b). certCell a b) allCells"

definition nameT :: "string \<times> int \<times> int \<times> int \<times> int \<Rightarrow> string" where
  "nameT t = (case t of (p, a, b, c, d) \<Rightarrow> getNodeName p a b c d)"

text \<open>
  The invariant of the predecessor links that \<^verbatim>\<open>dijkstra\<close> writes: a predecessor is a
  node of the table at a strictly smaller distance. A table is closed when every
  neighbour is a key.
\<close>

definition prevInv :: "Graph \<Rightarrow> bool" where
  "prevInv nodes \<longleftrightarrow>
     (\<forall>v nd p. map_of nodes v = Some nd \<and> prev nd = Some p \<longrightarrow>
        (\<exists>pn dp dv. map_of nodes p = Some pn \<and> dist pn = Some dp \<and> dist nd = Some dv \<and> dp < dv))"

definition closedGraph :: "Graph \<Rightarrow> bool" where
  "closedGraph g \<longleftrightarrow> (\<forall>k nd. (k, nd) \<in> set g \<longrightarrow> set (connectsTo nd) \<subseteq> fst ` set g)"

text \<open>A table of two nodes without edges, to run the search where no path exists.\<close>

definition twoNodes :: Graph where
  "twoNodes =
     [(''FREE'', \<lparr> ring = None, name = ''FREE'', connectsTo = [], dist = None, prev = None \<rparr>),
      (''U(1,1)-(1,2)'', \<lparr> ring = None, name = ''U(1,1)-(1,2)'', connectsTo = [],
                           dist = None, prev = None \<rparr>)]"

section \<open>Properties\<close>

lemma ringSizeOk_code [code]: "ringSizeOk a b = (let q = a ^ 2 + b ^ 2 in 0 < q \<and> q < 4)"
proof -
  have "sqrt (real_of_int (a ^ 2 + b ^ 2)) < sqrt 4 \<longleftrightarrow> real_of_int (a ^ 2 + b ^ 2) < 4"
    by (rule real_sqrt_less_iff)
  then have "sqrt (real_of_int (a ^ 2 + b ^ 2)) < 2 \<longleftrightarrow> a ^ 2 + b ^ 2 < 4"
    by (simp del: real_sqrt_less_iff of_int_add of_int_power)
  then show ?thesis
    by (simp add: ringSizeOk_def Let_def del: of_int_add of_int_power)
qed

subsection \<open>Names of cells, rings and nodes\<close>

lemma natToString_digit: "n < 10 \<Longrightarrow> natToString n = [''0123456789'' ! n]"
  by (simp add: natToString.simps)

lemma paren_in_getRingName: "CHR ''('' \<in> set (getRingName p a b c d)"
  by (simp add: getRingName_def Ring_positionToName_def getCellName_def)

lemma getRingName_not_FREE: "getRingName p a b c d \<noteq> ''FREE''"
proof
  assume "getRingName p a b c d = ''FREE''"
  then have "CHR ''('' \<in> set ''FREE''" using paren_in_getRingName [of p a b c d] by simp
  then show False by simp
qed

text \<open>
  Claim C5. For every peg orientation and every peg and ring cell, the node name is
  \<^verbatim>\<open>FREE\<close> exactly when both cells are outside the frame, and is the ring name
  otherwise; a cell is outside when a coordinate is at most 0 or at least 4. So every
  placement with both cells outside has the one name \<^verbatim>\<open>FREE\<close>.
\<close>

theorem getNodeName_FREE_iff:
  "(getNodeName p pc pr rc rr = ''FREE'' \<longleftrightarrow> isCellFree pc pr \<and> isCellFree rc rr)
   \<and> (\<not> (isCellFree pc pr \<and> isCellFree rc rr) \<longrightarrow>
        getNodeName p pc pr rc rr = getRingName p pc pr rc rr)
   \<and> (isCellFree pc pr \<longleftrightarrow> pc \<le> 0 \<or> pr \<le> 0 \<or> pc \<ge> 4 \<or> pr \<ge> 4)"
  by (simp add: getNodeName_def Ring_isFree_def FreeRingName_def getRingName_not_FREE isCellFree_def)

theorem getNodeName_FREE_iff_witness:
  "\<not> (isCellFree 3 1 \<and> isCellFree 4 1)
   \<and> getNodeName ''U'' 3 1 4 1 = getRingName ''U'' 3 1 4 1
   \<and> getNodeName ''D'' 0 0 5 2 = ''FREE''"
  using getNodeName_FREE_iff [of "''U''" 3 1 4 1] getNodeName_FREE_iff [of "''D''" 0 0 5 2]
  by (simp add: isCellFree_def)

subsection \<open>Parsing a position\<close>

lemma numberToString_04:
  "numberToString 0 = ''0''" "numberToString 1 = ''1''" "numberToString 2 = ''2''"
  "numberToString 3 = ''3''" "numberToString 4 = ''4''"
  by (simp_all add: numberToString_def natToString.simps)

lemma parseInt_04:
  "parseInt ''0'' = 0" "parseInt ''1'' = 1" "parseInt ''2'' = 2"
  "parseInt ''3'' = 3" "parseInt ''4'' = 4"
  by (simp_all add: parseInt_def digitValue_def)

lemma is04_cases: "is04 c \<Longrightarrow> \<exists>n\<in>{0..4}. [c] = numberToString n \<and> parseInt [c] = n"
  unfolding is04_def
  by (elim disjE) (simp_all add: numberToString_04 parseInt_04)

lemma in04_cases: "(n::int) \<in> {0..4} \<Longrightarrow> n = 0 \<or> n = 1 \<or> n = 2 \<or> n = 3 \<or> n = 4"
  by auto

lemma numberToString_is04: "n \<in> {0..4} \<Longrightarrow> \<exists>c. numberToString n = [c] \<and> is04 c \<and> parseInt [c] = n"
  by (drule in04_cases) (auto simp: numberToString_04 parseInt_04 is04_def)

lemma posCheck_SomeD:
  assumes "posCheck s = Some (g1, g2, g3, g4, g5)"
  shows "\<exists>p a b c d. s = [p, CHR ''('', a, CHR '','', b, CHR '')'', CHR ''-'', CHR ''('', c, CHR '','', d, CHR '')'']
           \<and> isUD p \<and> is04 a \<and> is04 b \<and> is04 c \<and> is04 d
           \<and> g1 = [p] \<and> g2 = [a] \<and> g3 = [b] \<and> g4 = [c] \<and> g5 = [d]"
  using assms by (rule posCheck.elims) (auto split: if_splits)

lemma posCheck_wellformed:
  "isUD p \<Longrightarrow> is04 a \<Longrightarrow> is04 b \<Longrightarrow> is04 c \<Longrightarrow> is04 d \<Longrightarrow>
   posCheck [p, CHR ''('', a, CHR '','', b, CHR '')'', CHR ''-'', CHR ''('', c, CHR '','', d, CHR '')'']
     = Some ([p], [a], [b], [c], [d])"
  by simp

lemma getRingName_chars:
  "getRingName [p] a b c d =
     p # CHR ''('' # numberToString a @ CHR '','' # numberToString b @ CHR '')'' # CHR ''-'' # CHR ''('' #
       numberToString c @ CHR '','' # numberToString d @ [CHR '')'']"
  by (simp add: getRingName_def Ring_positionToName_def getCellName_def)

lemma parsePosition_SomeD:
  assumes "parsePosition s = Some pos"
  shows "(s = ''FREE'' \<and> pos = FreePosition) \<or>
         (\<exists>p a b c d. p \<in> {PegPosUp, PegPosDown} \<and> a \<in> {0..4} \<and> b \<in> {0..4} \<and> c \<in> {0..4} \<and> d \<in> {0..4}
            \<and> ringSizeOk (b - d) (a - c) \<and> s = getRingName p a b c d \<and> pos = RingPosition p a b c d)"
proof (cases "s = ''FREE''")
  case True
  with assms show ?thesis by (simp add: parsePosition_def)
next
  case False
  with assms obtain g1 g2 g3 g4 g5 where pc: "posCheck s = Some (g1, g2, g3, g4, g5)"
    and ok: "ringSizeOk (parseInt g3 - parseInt g5) (parseInt g2 - parseInt g4)"
    and pos: "pos = RingPosition g1 (parseInt g2) (parseInt g3) (parseInt g4) (parseInt g5)"
    by (auto simp: parsePosition_def Let_def split: option.splits if_splits)
  from posCheck_SomeD [OF pc] obtain p a b c d where
    s: "s = [p, CHR ''('', a, CHR '','', b, CHR '')'', CHR ''-'', CHR ''('', c, CHR '','', d, CHR '')'']"
    and p: "isUD p" and d: "is04 a" "is04 b" "is04 c" "is04 d"
    and g: "g1 = [p]" "g2 = [a]" "g3 = [b]" "g4 = [c]" "g5 = [d]" by blast
  from d obtain na nb nc nd where
    n: "na \<in> {0..4}" "[a] = numberToString na" "parseInt [a] = na"
       "nb \<in> {0..4}" "[b] = numberToString nb" "parseInt [b] = nb"
       "nc \<in> {0..4}" "[c] = numberToString nc" "parseInt [c] = nc"
       "nd \<in> {0..4}" "[d] = numberToString nd" "parseInt [d] = nd"
    using is04_cases by metis
  have "s = getRingName [p] na nb nc nd"
    unfolding getRingName_chars s n(2,5,8,11) [symmetric] by simp
  moreover have "[p] \<in> {PegPosUp, PegPosDown}"
    using p by (auto simp: isUD_def PegPosUp_def PegPosDown_def)
  ultimately show ?thesis
    using n ok pos g by auto
qed

lemma parsePosition_getRingName:
  assumes "p \<in> {PegPosUp, PegPosDown}" "a \<in> {0..4}" "b \<in> {0..4}" "c \<in> {0..4}" "d \<in> {0..4}"
  shows "parsePosition (getRingName p a b c d) =
          (if ringSizeOk (b - d) (a - c) then Some (RingPosition p a b c d) else None)"
proof -
  from assms(1) obtain pc where p: "p = [pc]" "isUD pc"
    by (auto simp: isUD_def PegPosUp_def PegPosDown_def)
  from assms(2-5) obtain ca cb cc cd where
    n: "numberToString a = [ca]" "is04 ca" "parseInt [ca] = a"
       "numberToString b = [cb]" "is04 cb" "parseInt [cb] = b"
       "numberToString c = [cc]" "is04 cc" "parseInt [cc] = c"
       "numberToString d = [cd]" "is04 cd" "parseInt [cd] = d"
    using numberToString_is04 by metis
  have s: "getRingName [pc] a b c d =
      [pc, CHR ''('', ca, CHR '','', cb, CHR '')'', CHR ''-'', CHR ''('', cc, CHR '','', cd, CHR '')'']"
    by (simp add: getRingName_chars n)
  have nf: "getRingName [pc] a b c d \<noteq> ''FREE''" by (rule getRingName_not_FREE)
  show ?thesis
    unfolding parsePosition_def p(1)
    using nf by (simp add: s posCheck_wellformed p(2) n Let_def del: posCheck.simps)
qed

lemma parsePosition_initial: "parsePosition ''U(3,1)-(4,1)'' = Some (RingPosition ''U'' 3 1 4 1)"
  by (simp add: parsePosition_def isUD_def is04_def parseInt_def digitValue_def ringSizeOk_code)

text \<open>
  Claim C6. For every string that \<^verbatim>\<open>parsePosition\<close> accepts, encoding the parsed
  position with the canonical name format gives the string back.
\<close>

theorem parsePosition_roundtrip:
  "parsePosition s = Some pos \<Longrightarrow> encode pos = s"
  by (drule parsePosition_SomeD) (auto simp: encode_def FreeRingName_def)

theorem parsePosition_roundtrip_witness:
  "parsePosition ''U(3,1)-(4,1)'' = Some (RingPosition ''U'' 3 1 4 1)
   \<and> encode (RingPosition ''U'' 3 1 4 1) = ''U(3,1)-(4,1)''"
  using parsePosition_roundtrip [OF parsePosition_initial] parsePosition_initial by simp

text \<open>
  Claim C8, as stated, fails: it tells a rejection as malformed from a rejection as
  invalid geometry. \<^verbatim>\<open>X(1,1)-(2,2)\<close> does not match the pattern and
  \<^verbatim>\<open>U(1,1)-(3,3)\<close> matches it with cells too far apart; \<^verbatim>\<open>parsePosition\<close> returns the
  same value \<^verbatim>\<open>undefined\<close> for both.
\<close>

lemma posCheck_examples:
  "posCheck ''X(1,1)-(2,2)'' = None"
  "posCheck ''U(1,1)-(3,3)'' = Some (''U'', ''1'', ''1'', ''3'', ''3'')"
  by (simp_all add: isUD_def is04_def)

theorem parsePosition_one_failure_value:
  "posCheck ''X(1,1)-(2,2)'' = None
   \<and> posCheck ''U(1,1)-(3,3)'' = Some (''U'', ''1'', ''1'', ''3'', ''3'')
   \<and> parsePosition ''X(1,1)-(2,2)'' = None
   \<and> parsePosition ''U(1,1)-(3,3)'' = None
   \<and> parsePosition ''X(1,1)-(2,2)'' = parsePosition ''U(1,1)-(3,3)''"
proof -
  have 1: "parsePosition ''X(1,1)-(2,2)'' = None"
    by (simp add: parsePosition_def isUD_def is04_def)
  have 2: "parsePosition ''U(1,1)-(3,3)'' = None"
    by (simp add: parsePosition_def isUD_def is04_def parseInt_def digitValue_def ringSizeOk_code)
  from 1 2 posCheck_examples show ?thesis by simp
qed

text \<open>
  Claim C8, amended. \<^verbatim>\<open>parsePosition\<close> accepts \<^verbatim>\<open>FREE\<close>; it accepts the name of an
  orientation U or D with four coordinates in 0..4 exactly when the distance of the
  two cells is strictly between 0 and 2; and it accepts nothing else. Every rejection,
  of a string that does not match the pattern or of one that matches with a wrong
  distance, is the one value \<^verbatim>\<open>undefined\<close>. The parser has no graph among its
  arguments.
\<close>

theorem parsePosition_accepts:
  "parsePosition ''FREE'' = Some FreePosition
   \<and> (\<forall>p a b c d. p \<in> {PegPosUp, PegPosDown} \<and> a \<in> {0..4} \<and> b \<in> {0..4} \<and> c \<in> {0..4} \<and> d \<in> {0..4} \<longrightarrow>
        parsePosition (getRingName p a b c d) =
          (if ringSizeOk (b - d) (a - c) then Some (RingPosition p a b c d) else None))
   \<and> (parsePosition s \<noteq> None \<longrightarrow>
        s = ''FREE'' \<or>
        (\<exists>p a b c d. p \<in> {PegPosUp, PegPosDown} \<and> a \<in> {0..4} \<and> b \<in> {0..4} \<and> c \<in> {0..4} \<and> d \<in> {0..4}
           \<and> ringSizeOk (b - d) (a - c) \<and> s = getRingName p a b c d))"
proof (intro conjI allI impI)
  show "parsePosition ''FREE'' = Some FreePosition" by (simp add: parsePosition_def)
next
  fix p :: string and a b c d :: int
  assume "p \<in> {PegPosUp, PegPosDown} \<and> a \<in> {0..4} \<and> b \<in> {0..4} \<and> c \<in> {0..4} \<and> d \<in> {0..4}"
  then show "parsePosition (getRingName p a b c d) =
          (if ringSizeOk (b - d) (a - c) then Some (RingPosition p a b c d) else None)"
    using parsePosition_getRingName by blast
next
  assume "parsePosition s \<noteq> None"
  then obtain pos where "parsePosition s = Some pos" by auto
  from parsePosition_SomeD [OF this]
  show "s = ''FREE'' \<or>
        (\<exists>p a b c d. p \<in> {PegPosUp, PegPosDown} \<and> a \<in> {0..4} \<and> b \<in> {0..4} \<and> c \<in> {0..4} \<and> d \<in> {0..4}
           \<and> ringSizeOk (b - d) (a - c) \<and> s = getRingName p a b c d)"
    by blast
qed

theorem parsePosition_accepts_witness:
  "parsePosition (getRingName PegPosUp 1 1 3 3) = None
   \<and> parsePosition (getRingName PegPosUp 3 1 4 1) = Some (RingPosition PegPosUp 3 1 4 1)
   \<and> parsePosition ''U(3,1)-(4,1)'' \<noteq> None
   \<and> (\<exists>p a b c d. p \<in> {PegPosUp, PegPosDown} \<and> a \<in> {0..4} \<and> b \<in> {0..4} \<and> c \<in> {0..4} \<and> d \<in> {0..4}
         \<and> ringSizeOk (b - d) (a - c) \<and> ''U(3,1)-(4,1)'' = getRingName p a b c d)"
proof -
  note acc = parsePosition_accepts [of "''U(3,1)-(4,1)''"]
  from acc have all: "\<And>p a b c d. p \<in> {PegPosUp, PegPosDown} \<and> a \<in> {0..4} \<and> b \<in> {0..4} \<and> c \<in> {0..4} \<and> d \<in> {0..4} \<Longrightarrow>
        parsePosition (getRingName p a b c d) =
          (if ringSizeOk (b - d) (a - c) then Some (RingPosition p a b c d) else None)"
    by blast
  have 1: "parsePosition (getRingName PegPosUp 1 1 3 3) = None"
    using all [of PegPosUp 1 1 3 3] by (simp add: ringSizeOk_code)
  have 2: "parsePosition (getRingName PegPosUp 3 1 4 1) = Some (RingPosition PegPosUp 3 1 4 1)"
    using all [of PegPosUp 3 1 4 1] by (simp add: ringSizeOk_code)
  have 3: "parsePosition ''U(3,1)-(4,1)'' \<noteq> None"
    by (simp add: parsePosition_initial)
  from acc 3 have 4: "\<exists>p a b c d. p \<in> {PegPosUp, PegPosDown} \<and> a \<in> {0..4} \<and> b \<in> {0..4} \<and> c \<in> {0..4} \<and> d \<in> {0..4}
         \<and> ringSizeOk (b - d) (a - c) \<and> ''U(3,1)-(4,1)'' = getRingName p a b c d"
    by blast
  from 1 2 3 4 show ?thesis by blast
qed

subsection \<open>Dent lookup\<close>

lemma getSketchDent_outside:
  "\<not> insideSketch sketch (r, c) \<Longrightarrow> getSketchDent sketch r c = CHR ''B''"
  by (auto simp: getSketchDent_def insideSketch_def Let_def)

lemma getCellDents_sketchIndex:
  "getCellDents col row d =
     (let dent = getSketchDent CastDuetTopologySketch (fst (sketchIndex col row d)) (snd (sketchIndex col row d))
      in if dent = CHR ''D'' \<or> dent = CHR ''H'' \<or> dent = CHR ''B'' then Some dent else None)"
  by (cases d) (simp_all add: getCellDents_def sketchIndex_def Let_def algebra_simps)

text \<open>
  Claim C9. A dent lookup whose sketch indices fall outside the topology table gives
  the marker B: \<^verbatim>\<open>getSketchDent\<close> returns it, and \<^verbatim>\<open>getCellDents\<close> keeps it for
  the slot, present in the result. The indices of a slot are those of \<open>sketchIndex\<close>.
\<close>

theorem dent_outside_table:
  "(\<not> insideSketch sketch (r, c) \<longrightarrow> getSketchDent sketch r c = CHR ''B'')
   \<and> (\<not> insideSketch CastDuetTopologySketch (sketchIndex col row d) \<longrightarrow>
        getCellDents col row d = Some CHR ''B'')
   \<and> getCellDents col row d =
       (let dent = getSketchDent CastDuetTopologySketch
                     (fst (sketchIndex col row d)) (snd (sketchIndex col row d))
        in if dent = CHR ''D'' \<or> dent = CHR ''H'' \<or> dent = CHR ''B'' then Some dent else None)"
proof (intro conjI impI)
  assume "\<not> insideSketch sketch (r, c)"
  then show "getSketchDent sketch r c = CHR ''B''" by (rule getSketchDent_outside)
next
  assume "\<not> insideSketch CastDuetTopologySketch (sketchIndex col row d)"
  then have "getSketchDent CastDuetTopologySketch (fst (sketchIndex col row d)) (snd (sketchIndex col row d)) = CHR ''B''"
    using getSketchDent_outside [of CastDuetTopologySketch "fst (sketchIndex col row d)" "snd (sketchIndex col row d)"]
    by simp
  then show "getCellDents col row d = Some CHR ''B''"
    by (simp add: getCellDents_sketchIndex)
next
  show "getCellDents col row d =
       (let dent = getSketchDent CastDuetTopologySketch
                     (fst (sketchIndex col row d)) (snd (sketchIndex col row d))
        in if dent = CHR ''D'' \<or> dent = CHR ''H'' \<or> dent = CHR ''B'' then Some dent else None)"
    by (rule getCellDents_sketchIndex)
qed

theorem dent_outside_table_witness:
  "\<not> insideSketch CastDuetTopologySketch (8, - 6)
   \<and> getSketchDent CastDuetTopologySketch 8 (- 6) = CHR ''B''
   \<and> \<not> insideSketch CastDuetTopologySketch (sketchIndex 0 1 TL)
   \<and> getCellDents 0 1 TL = Some CHR ''B''"
proof -
  have 1: "\<not> insideSketch CastDuetTopologySketch (8, - 6)"
    by (simp add: insideSketch_def)
  have 2: "\<not> insideSketch CastDuetTopologySketch (sketchIndex 0 1 TL)"
    by (simp add: insideSketch_def sketchIndex_def)
  from dent_outside_table [of CastDuetTopologySketch 8 "- 6" 0 1 TL] 1 2
  show ?thesis by blast
qed

subsection \<open>Move rules\<close>

lemma set_addKey [simp]: "set (addKey k ks) = insert k (set ks)"
  by (auto simp: addKey_def)

lemma connect_eq:
  "connect r dents d dc dr sc sr conns =
     (if dentCompatible (pegPos r) (dents d)
      then addKey (getNodeName (pegPos r) (pegCol r + dc) (pegRow r + dr) (ringCol r + sc) (ringRow r + sr)) conns
      else conns)"
  by (simp add: connect_def dentCompatible_def Let_def)

lemma set_rotationMoves:
  "set (rotationMoves r dents free conns) =
     set conns
     \<union> set (map (rotationTarget r)
              (filter (\<lambda>d. dentCompatible (pegPos r) (dents d)) (rotationSlots (rotation r))))
     \<union> (if free
        then set (map (slideTarget r)
                   (filter (\<lambda>d. dentCompatible (pegPos r) (dents d)) (slideSlots (rotation r))))
        else {})"
proof -
  have "rotation r = 0 \<or> rotation r = 1 \<or> rotation r = 2 \<or> rotation r = 3 \<or> rotation r = 4
        \<or> rotation r = 5 \<or> rotation r = 6 \<or> rotation r = 7 \<or> 7 < rotation r"
    by arith
  then show ?thesis
  proof (elim disjE)
    assume k: "rotation r = 0"
    show ?thesis
      by (simp add: k rotationMoves_def rotationSlots_def slideSlots_def connect_eq Let_def
          rotationTarget_def slotDelta_def) blast
  next
    assume k: "rotation r = 1"
    show ?thesis
      by (simp add: k rotationMoves_def rotationSlots_def slideSlots_def connect_eq Let_def
          rotationTarget_def slideTarget_def slotDelta_def) blast
  next
    assume k: "rotation r = 2"
    show ?thesis
      by (simp add: k rotationMoves_def rotationSlots_def slideSlots_def connect_eq Let_def
          rotationTarget_def slotDelta_def) blast
  next
    assume k: "rotation r = 3"
    show ?thesis
      by (simp add: k rotationMoves_def rotationSlots_def slideSlots_def connect_eq Let_def
          rotationTarget_def slideTarget_def slotDelta_def) blast
  next
    assume k: "rotation r = 4"
    show ?thesis
      by (simp add: k rotationMoves_def rotationSlots_def slideSlots_def connect_eq Let_def
          rotationTarget_def slotDelta_def) blast
  next
    assume k: "rotation r = 5"
    show ?thesis
      by (simp add: k rotationMoves_def rotationSlots_def slideSlots_def connect_eq Let_def
          rotationTarget_def slideTarget_def slotDelta_def) blast
  next
    assume k: "rotation r = 6"
    show ?thesis
      by (simp add: k rotationMoves_def rotationSlots_def slideSlots_def connect_eq Let_def
          rotationTarget_def slotDelta_def) blast
  next
    assume k: "rotation r = 7"
    show ?thesis
      by (simp add: k rotationMoves_def rotationSlots_def slideSlots_def connect_eq Let_def
          rotationTarget_def slideTarget_def slotDelta_def) blast
  next
    assume k: "7 < rotation r"
    then show ?thesis
      by (simp add: rotationMoves_def rotationSlots_def slideSlots_def)
  qed
qed

lemma set_freeRotationStep: "set conns \<subseteq> set (freeRotationStep r xy conns)"
  by (cases xy) (auto simp: freeRotationStep_def Let_def)

lemma set_fold_freeRotationStep: "set conns \<subseteq> set (fold (freeRotationStep r) xys conns)"
proof (induction xys arbitrary: conns)
  case Nil
  then show ?case by simp
next
  case (Cons xy xys)
  have "set conns \<subseteq> set (freeRotationStep r xy conns)" by (rule set_freeRotationStep)
  also have "\<dots> \<subseteq> set (fold (freeRotationStep r) xys (freeRotationStep r xy conns))"
    by (rule Cons.IH)
  finally show ?case by simp
qed

lemma set_freeRotations_mono: "set conns \<subseteq> set (freeRotations r conns)"
  unfolding freeRotations_def by (rule set_fold_freeRotationStep)

lemma getCellDents_3_1_TL: "getCellDents 3 1 TL = Some CHR ''D''"
  by (simp add: getCellDents_def getSketchDent_def CastDuetTopologySketch_def Let_def)

subsection \<open>The built graph\<close>

lemma sq_less_4: "(x::int) ^ 2 < 4 \<longleftrightarrow> - 1 \<le> x \<and> x \<le> 1"
proof
  assume h: "x ^ 2 < 4"
  have "\<bar>x\<bar> < 2"
  proof (rule ccontr)
    assume "\<not> \<bar>x\<bar> < 2"
    then have "2 \<le> \<bar>x\<bar>" by simp
    then have "2 ^ 2 \<le> \<bar>x\<bar> ^ 2" by (rule power_mono) simp
    with h show False by simp
  qed
  then show "- 1 \<le> x \<and> x \<le> 1" by arith
next
  assume "- 1 \<le> x \<and> x \<le> 1"
  then have "x = - 1 \<or> x = 0 \<or> x = 1" by arith
  then show "x ^ 2 < 4" by auto
qed

lemma ringSizeOk_iff:
  "ringSizeOk x y \<longleftrightarrow> - 1 \<le> x \<and> x \<le> 1 \<and> - 1 \<le> y \<and> y \<le> 1 \<and> (x \<noteq> 0 \<or> y \<noteq> 0)"
proof
  assume "ringSizeOk x y"
  then have pos: "0 < x ^ 2 + y ^ 2" and lt: "x ^ 2 + y ^ 2 < 4"
    by (simp_all add: ringSizeOk_code Let_def)
  have "x ^ 2 < 4" "y ^ 2 < 4"
    using lt zero_le_power2 [of x] zero_le_power2 [of y] by arith+
  moreover from pos have "x \<noteq> 0 \<or> y \<noteq> 0" by auto
  ultimately show "- 1 \<le> x \<and> x \<le> 1 \<and> - 1 \<le> y \<and> y \<le> 1 \<and> (x \<noteq> 0 \<or> y \<noteq> 0)"
    by (simp add: sq_less_4)
next
  assume h: "- 1 \<le> x \<and> x \<le> 1 \<and> - 1 \<le> y \<and> y \<le> 1 \<and> (x \<noteq> 0 \<or> y \<noteq> 0)"
  then have "x = - 1 \<or> x = 0 \<or> x = 1" "y = - 1 \<or> y = 0 \<or> y = 1" by arith+
  with h show "ringSizeOk x y"
    by (auto simp: ringSizeOk_code)
qed

lemma ringSizeOk_cases:
  "ringSizeOk x y \<longleftrightarrow>
     (x = - 1 \<and> y = - 1) \<or> (x = - 1 \<and> y = 0) \<or> (x = - 1 \<and> y = 1) \<or> (x = 0 \<and> y = 1)
     \<or> (x = 1 \<and> y = 1) \<or> (x = 1 \<and> y = 0) \<or> (x = 1 \<and> y = - 1) \<or> (x = 0 \<and> y = - 1)"
proof
  assume "ringSizeOk x y"
  then have h: "- 1 \<le> x \<and> x \<le> 1 \<and> - 1 \<le> y \<and> y \<le> 1" and nz: "x \<noteq> 0 \<or> y \<noteq> 0"
    by (simp_all add: ringSizeOk_iff)
  from h have "x = - 1 \<or> x = 0 \<or> x = 1" "y = - 1 \<or> y = 0 \<or> y = 1" by arith+
  with nz show "(x = - 1 \<and> y = - 1) \<or> (x = - 1 \<and> y = 0) \<or> (x = - 1 \<and> y = 1) \<or> (x = 0 \<and> y = 1)
     \<or> (x = 1 \<and> y = 1) \<or> (x = 1 \<and> y = 0) \<or> (x = 1 \<and> y = - 1) \<or> (x = 0 \<and> y = - 1)"
    by (elim disjE) simp_all
next
  assume "(x = - 1 \<and> y = - 1) \<or> (x = - 1 \<and> y = 0) \<or> (x = - 1 \<and> y = 1) \<or> (x = 0 \<and> y = 1)
     \<or> (x = 1 \<and> y = 1) \<or> (x = 1 \<and> y = 0) \<or> (x = 1 \<and> y = - 1) \<or> (x = 0 \<and> y = - 1)"
  then show "ringSizeOk x y"
    by (elim disjE conjE) (simp_all add: ringSizeOk_code)
qed

lemma in_0_4: "(a::int) \<in> set [0, 1, 2, 3, 4] \<longleftrightarrow> 0 \<le> a \<and> a \<le> 4"
proof
  assume "a \<in> set [0, 1, 2, 3, 4]"
  then have "a = 0 \<or> a = 1 \<or> a = 2 \<or> a = 3 \<or> a = 4" by simp
  then show "0 \<le> a \<and> a \<le> 4" by (elim disjE) simp_all
next
  assume "0 \<le> a \<and> a \<le> 4"
  then have "a = 0 \<or> a = 1 \<or> a = 2 \<or> a = 3 \<or> a = 4" by arith
  then show "a \<in> set [0, 1, 2, 3, 4]" by simp
qed

lemma set_pairs: "set (concat (map (\<lambda>x. map (\<lambda>y. (x, y)) ys) xs)) = set xs \<times> set ys"
  by auto

lemma allCells_iff: "(a, b) \<in> set allCells \<longleftrightarrow> 0 \<le> a \<and> a \<le> 4 \<and> 0 \<le> b \<and> b \<le> 4"
proof -
  have "(a, b) \<in> set allCells \<longleftrightarrow> a \<in> set [0, 1, 2, 3, 4] \<and> b \<in> set [0, 1, 2, 3, 4]"
    unfolding allCells_def set_pairs by (rule mem_Sigma_iff)
  then show ?thesis by (simp only: in_0_4) simp
qed

lemma set_generateAllRingsForCell:
  "set (generateAllRingsForCell a b) =
    {new_Ring PegPosUp a b (a - 1) (b - 1) 0, new_Ring PegPosDown a b (a - 1) (b - 1) 0,
     new_Ring PegPosUp a b (a - 1) b 1, new_Ring PegPosDown a b (a - 1) b 1,
     new_Ring PegPosUp a b (a - 1) (b + 1) 2, new_Ring PegPosDown a b (a - 1) (b + 1) 2,
     new_Ring PegPosUp a b a (b + 1) 3, new_Ring PegPosDown a b a (b + 1) 3,
     new_Ring PegPosUp a b (a + 1) (b + 1) 4, new_Ring PegPosDown a b (a + 1) (b + 1) 4,
     new_Ring PegPosUp a b (a + 1) b 5, new_Ring PegPosDown a b (a + 1) b 5,
     new_Ring PegPosUp a b (a + 1) (b - 1) 6, new_Ring PegPosDown a b (a + 1) (b - 1) 6,
     new_Ring PegPosUp a b a (b - 1) 7, new_Ring PegPosDown a b a (b - 1) 7}"
  unfolding generateAllRingsForCell_def push_def Let_def
  by (simp only: append_Nil append_Cons list.set)

lemma generated_intro:
  "p = PegPosUp \<or> p = PegPosDown \<Longrightarrow> ringSizeOk (c - a) (d - b) \<Longrightarrow> rotationOf (c - a) (d - b) = k \<Longrightarrow>
   \<exists>p' c' d'. (p' = PegPosUp \<or> p' = PegPosDown) \<and> ringSizeOk (c' - a) (d' - b)
        \<and> new_Ring p a b c d k = new_Ring p' a b c' d' (rotationOf (c' - a) (d' - b))"
  by blast

lemma generateAllRingsForCell_iff:
  "r \<in> set (generateAllRingsForCell a b) \<longleftrightarrow>
     (\<exists>p c d. (p = PegPosUp \<or> p = PegPosDown) \<and> ringSizeOk (c - a) (d - b)
        \<and> r = new_Ring p a b c d (rotationOf (c - a) (d - b)))"
proof
  assume "r \<in> set (generateAllRingsForCell a b)"
  then show "\<exists>p c d. (p = PegPosUp \<or> p = PegPosDown) \<and> ringSizeOk (c - a) (d - b)
        \<and> r = new_Ring p a b c d (rotationOf (c - a) (d - b))"
    unfolding set_generateAllRingsForCell insert_iff empty_iff
    by (elim disjE FalseE)
       (hypsubst, rule generated_intro, simp, simp add: ringSizeOk_cases, simp add: rotationOf_def)+
next
  assume "\<exists>p c d. (p = PegPosUp \<or> p = PegPosDown) \<and> ringSizeOk (c - a) (d - b)
        \<and> r = new_Ring p a b c d (rotationOf (c - a) (d - b))"
  then obtain p c d where p: "p = PegPosUp \<or> p = PegPosDown" and k: "ringSizeOk (c - a) (d - b)"
    and r: "r = new_Ring p a b c d (rotationOf (c - a) (d - b))" by blast
  define x y where "x = c - a" and "y = d - b"
  then have cd: "c = a + x" "d = b + y" by simp_all
  from k have "ringSizeOk x y" by (simp add: x_def y_def)
  then have "new_Ring p a b (a + x) (b + y) (rotationOf x y) \<in> set (generateAllRingsForCell a b)"
    using p unfolding ringSizeOk_cases set_generateAllRingsForCell
    by (elim disjE conjE) (simp_all add: rotationOf_def)
  then show "r \<in> set (generateAllRingsForCell a b)"
    by (simp add: r cd)
qed

lemma allRings_iff:
  "r \<in> set allRings \<longleftrightarrow>
     (\<exists>p a b c d. (p = PegPosUp \<or> p = PegPosDown) \<and> 0 \<le> a \<and> a \<le> 4 \<and> 0 \<le> b \<and> b \<le> 4
        \<and> ringSizeOk (c - a) (d - b) \<and> r = new_Ring p a b c d (rotationOf (c - a) (d - b)))"
proof -
  have "r \<in> set allRings \<longleftrightarrow> (\<exists>a b. (a, b) \<in> set allCells \<and> r \<in> set (generateAllRingsForCell a b))"
    unfolding allRings_def by auto
  then show ?thesis
    unfolding allCells_iff generateAllRingsForCell_iff by blast
qed

lemma fold_concat_map: "fold f (concat (map g xs)) = fold (\<lambda>x. fold f (g x)) xs"
  by (induction xs) simp_all

lemma generateNodes_fold: "generateNodes nodes = fold insertNode allRings nodes"
proof -
  have "(\<lambda>(col, row) nodes. fold insertNode (generateAllRingsForCell col row) nodes)
        = (\<lambda>x. fold insertNode ((\<lambda>(col, row). generateAllRingsForCell col row) x))"
    by (auto simp: fun_eq_iff)
  then show ?thesis
    by (simp add: generateNodes_def allRings_def fold_concat_map)
qed

lemma name_new_Node [simp]: "name (new_Node r) = nodeNameOf r"
  by (simp add: new_Node_def nodeNameOf_def)

lemma map_fst_update: "map_of al k = Some v0 \<Longrightarrow> map fst (AList.update k v al) = map fst al"
  by (induction al) (auto split: if_splits)

lemma insertNode_lookup:
  "map_of (insertNode r nodes) = (map_of nodes)(nodeNameOf r \<mapsto> new_Node r)"
  by (simp add: insertNode_def Let_def update_conv')

lemma fold_insertNode_lookup:
  "map_of (fold insertNode rs nodes) k = Some nd \<Longrightarrow>
     (\<exists>r \<in> set rs. nd = new_Node r \<and> nodeNameOf r = k) \<or> map_of nodes k = Some nd"
proof (induction rs arbitrary: nodes)
  case Nil
  then show ?case by simp
next
  case (Cons r rs)
  from Cons.prems have "map_of (fold insertNode rs (insertNode r nodes)) k = Some nd" by simp
  from Cons.IH [OF this] show ?case
    by (auto simp: insertNode_lookup split: if_splits)
qed

lemma fold_insertNode_keys:
  "fst ` set (fold insertNode rs nodes) = fst ` set nodes \<union> nodeNameOf ` set rs"
proof (induction rs arbitrary: nodes)
  case Nil
  then show ?case by simp
next
  case (Cons r rs)
  have "fst ` set (insertNode r nodes) = insert (nodeNameOf r) (fst ` set nodes)"
    by (simp add: insertNode_def Let_def dom_update)
  then show ?case by (simp add: Cons.IH)
qed

lemma fold_insertNode_distinct:
  "distinct (map fst nodes) \<Longrightarrow> distinct (map fst (fold insertNode rs nodes))"
  by (induction rs arbitrary: nodes) (simp_all add: insertNode_def Let_def distinct_update)

lemma name_getNodeConnections [simp]: "name (getNodeConnections nd) = name nd"
  by (simp add: getNodeConnections_def Let_def split: option.splits)

lemma dist_getNodeConnections [simp]: "dist (getNodeConnections nd) = dist nd"
  by (simp add: getNodeConnections_def Let_def split: option.splits)

lemma connectNode_keys: "map fst (connectNode n g) = map fst g"
proof (cases "n = FreeRingName \<or> map_of g n = None")
  case True
  then show ?thesis by (auto simp: connectNode_def)
next
  case False
  then obtain nd where n: "n \<noteq> FreeRingName" and nd: "map_of g n = Some nd" by auto
  let ?g1 = "AList.update n (getNodeConnections nd) g"
  have k1: "map fst ?g1 = map fst g" using nd by (rule map_fst_update)
  show ?thesis
  proof (cases "map_of ?g1 FreeRingName")
    case None
    then show ?thesis using n nd k1 by (simp add: connectNode_def Let_def)
  next
    case (Some f)
    then have "map fst (AList.update FreeRingName v ?g1) = map fst ?g1" for v
      by (rule map_fst_update)
    then show ?thesis using n nd k1 Some by (simp add: connectNode_def Let_def)
  qed
qed

lemma connectNode_other:
  assumes "k \<noteq> FreeRingName"
  shows "map_of (connectNode n g) k =
           (if k = n then map_option getNodeConnections (map_of g n) else map_of g k)"
proof (cases "n = FreeRingName \<or> map_of g n = None")
  case True
  then show ?thesis using assms by (auto simp: connectNode_def)
next
  case False
  then obtain nd where n: "n \<noteq> FreeRingName" and nd: "map_of g n = Some nd" by auto
  then show ?thesis using assms
    by (auto simp: connectNode_def Let_def update_conv' split: option.splits)
qed

lemma connectNode_free:
  assumes "wellNamed g" "map_of g FreeRingName = Some f"
  shows "\<exists>f'. map_of (connectNode n g) FreeRingName = Some f'
           \<and> set (connectsTo f') \<subseteq> insert n (set (connectsTo f))
           \<and> name f' = name f \<and> dist f' = dist f \<and> prev f' = prev f"
proof (cases "n = FreeRingName \<or> map_of g n = None")
  case True
  then show ?thesis using assms by (auto simp: connectNode_def)
next
  case False
  then obtain nd where n: "n \<noteq> FreeRingName" and nd: "map_of g n = Some nd" by auto
  from assms(1) nd have "name nd = n" by (simp add: wellNamed_def)
  then show ?thesis using n nd assms(2)
    by (auto simp: connectNode_def Let_def update_conv' split: option.splits)
qed

lemma connectNode_wellNamed:
  assumes "wellNamed g"
  shows "wellNamed (connectNode n g)"
proof (cases "n = FreeRingName \<or> map_of g n = None")
  case True
  then show ?thesis using assms by (auto simp: connectNode_def)
next
  case False
  then obtain nd where n: "n \<noteq> FreeRingName" and nd: "map_of g n = Some nd" by auto
  then show ?thesis using assms
    unfolding wellNamed_def
    by (auto simp: connectNode_def Let_def update_conv' split: option.splits if_splits)
qed

lemma fold_connectNode_keys: "map fst (fold connectNode ks g) = map fst g"
  by (induction ks arbitrary: g) (simp_all add: connectNode_keys)

lemma fold_connectNode_other:
  assumes "distinct ks" "k \<noteq> FreeRingName"
  shows "map_of (fold connectNode ks g) k =
           (if k \<in> set ks then map_option getNodeConnections (map_of g k) else map_of g k)"
  using assms(1)
proof (induction ks arbitrary: g)
  case Nil
  then show ?case by simp
next
  case (Cons n ks)
  then have d: "distinct ks" and nk: "n \<notin> set ks" by simp_all
  have "map_of (fold connectNode (n # ks) g) k = map_of (fold connectNode ks (connectNode n g)) k"
    by simp
  also have "\<dots> = (if k \<in> set ks then map_option getNodeConnections (map_of (connectNode n g) k)
                     else map_of (connectNode n g) k)"
    by (rule Cons.IH [OF d])
  also have "\<dots> = (if k \<in> set (n # ks) then map_option getNodeConnections (map_of g k) else map_of g k)"
  proof (cases "k = n")
    case True
    with nk have "k \<notin> set ks" by simp
    then show ?thesis using True connectNode_other [OF assms(2), of n g] by simp
  next
    case False
    then show ?thesis using connectNode_other [OF assms(2), of n g] by simp
  qed
  finally show ?case .
qed

lemma fold_connectNode_free:
  assumes "wellNamed g" "map_of g FreeRingName = Some f"
  shows "\<exists>f'. map_of (fold connectNode ks g) FreeRingName = Some f'
           \<and> set (connectsTo f') \<subseteq> set ks \<union> set (connectsTo f)
           \<and> name f' = name f \<and> dist f' = dist f \<and> prev f' = prev f"
  using assms
proof (induction ks arbitrary: g f)
  case Nil
  then show ?case by simp
next
  case (Cons n ks)
  from connectNode_free [OF Cons.prems, of n] obtain f1 where
    f1: "map_of (connectNode n g) FreeRingName = Some f1"
    and s1: "set (connectsTo f1) \<subseteq> insert n (set (connectsTo f))"
    and e1: "name f1 = name f" "dist f1 = dist f" "prev f1 = prev f" by blast
  have w1: "wellNamed (connectNode n g)" using Cons.prems(1) by (rule connectNode_wellNamed)
  from Cons.IH [OF w1 f1] obtain f' where
    "map_of (fold connectNode ks (connectNode n g)) FreeRingName = Some f'"
    "set (connectsTo f') \<subseteq> set ks \<union> set (connectsTo f1)"
    "name f' = name f1" "dist f' = dist f1" "prev f' = prev f1" by blast
  with s1 e1 show ?case by auto
qed

lemma ringOf_fields [simp]:
  "pegPos (ringOf p a b c d) = p" "pegCol (ringOf p a b c d) = a" "pegRow (ringOf p a b c d) = b"
  "ringCol (ringOf p a b c d) = c" "ringRow (ringOf p a b c d) = d"
  "rotation (ringOf p a b c d) = rotationOf (c - a) (d - b)"
  by (simp_all add: ringOf_def new_Ring_def)

lemma nodeNameOf_ringOf [simp]: "nodeNameOf (ringOf p a b c d) = getNodeName p a b c d"
  by (simp add: nodeNameOf_def)

lemma getNodeName_not_free: "\<not> Ring_isFree a b c d \<Longrightarrow> getNodeName p a b c d = getRingName p a b c d"
  by (simp add: getNodeName_def)

lemma getNodeName_eq_FREE: "getNodeName p a b c d = FreeRingName \<longleftrightarrow> Ring_isFree a b c d"
  by (simp add: getNodeName_def FreeRingName_def getRingName_not_FREE)

lemma valid_ring_range:
  assumes "validPlacement p a b c d"
  shows "0 \<le> c \<and> c \<le> 4 \<and> 0 \<le> d \<and> d \<le> 4"
proof -
  from assms have k: "- 1 \<le> c - a" "c - a \<le> 1" "- 1 \<le> d - b" "d - b \<le> 1"
    and r: "0 \<le> a" "a \<le> 4" "0 \<le> b" "b \<le> 4"
    and nf: "\<not> isCellFree a b \<or> \<not> isCellFree c d"
    by (simp_all add: validPlacement_def ringSizeOk_iff Ring_isFree_def)
  from nf show ?thesis
  proof
    assume "\<not> isCellFree a b"
    then have "1 \<le> a" "a \<le> 3" "1 \<le> b" "b \<le> 3" by (simp_all add: isCellFree_def)
    with k show ?thesis by simp
  next
    assume "\<not> isCellFree c d"
    then show ?thesis by (simp add: isCellFree_def)
  qed
qed

lemma ringSizeOk_swap: "ringSizeOk (c - a) (d - b) \<Longrightarrow> ringSizeOk (b - d) (a - c)"
  unfolding ringSizeOk_iff by auto

lemma valid_parse:
  assumes "validPlacement p a b c d"
  shows "parsePosition (getRingName p a b c d) = Some (RingPosition p a b c d)"
proof -
  from assms have 1: "p \<in> {PegPosUp, PegPosDown}" "a \<in> {0..4}" "b \<in> {0..4}"
    and k: "ringSizeOk (b - d) (a - c)"
    by (auto simp: validPlacement_def intro: ringSizeOk_swap)
  from valid_ring_range [OF assms] have 2: "c \<in> {0..4}" "d \<in> {0..4}" by simp_all
  show ?thesis using parsePosition_getRingName [OF 1 2] k by simp
qed

lemma valid_name_inj:
  assumes "validPlacement p a b c d" "validPlacement p' a' b' c' d'"
    and "getRingName p a b c d = getRingName p' a' b' c' d'"
  shows "p = p' \<and> a = a' \<and> b = b' \<and> c = c' \<and> d = d'"
proof -
  have "Some (RingPosition p a b c d) = parsePosition (getRingName p a b c d)"
    by (simp only: valid_parse [OF assms(1)])
  also have "\<dots> = parsePosition (getRingName p' a' b' c' d')"
    by (simp only: assms(3))
  also have "\<dots> = Some (RingPosition p' a' b' c' d')"
    by (simp only: valid_parse [OF assms(2)])
  finally show ?thesis by simp
qed

lemma allRings_valid:
  "r \<in> set allRings \<and> nodeNameOf r \<noteq> FreeRingName \<longleftrightarrow>
     (\<exists>p a b c d. validPlacement p a b c d \<and> r = ringOf p a b c d)"
proof
  assume h: "r \<in> set allRings \<and> nodeNameOf r \<noteq> FreeRingName"
  then obtain p a b c d where p: "p = PegPosUp \<or> p = PegPosDown"
    and ab: "0 \<le> a" "a \<le> 4" "0 \<le> b" "b \<le> 4" and k: "ringSizeOk (c - a) (d - b)"
    and r: "r = ringOf p a b c d"
    unfolding allRings_iff ringOf_def by blast
  from h r have "\<not> Ring_isFree a b c d" by (simp add: getNodeName_eq_FREE)
  with p ab k have "validPlacement p a b c d" by (simp add: validPlacement_def)
  with r show "\<exists>p a b c d. validPlacement p a b c d \<and> r = ringOf p a b c d" by blast
next
  assume "\<exists>p a b c d. validPlacement p a b c d \<and> r = ringOf p a b c d"
  then obtain p a b c d where v: "validPlacement p a b c d" and r: "r = ringOf p a b c d" by blast
  from v have "\<exists>p a b c d. (p = PegPosUp \<or> p = PegPosDown) \<and> 0 \<le> a \<and> a \<le> 4 \<and> 0 \<le> b \<and> b \<le> 4
        \<and> ringSizeOk (c - a) (d - b) \<and> r = new_Ring p a b c d (rotationOf (c - a) (d - b))"
    unfolding r ringOf_def validPlacement_def by blast
  then have "r \<in> set allRings" by (simp only: allRings_iff)
  moreover from v r have "nodeNameOf r \<noteq> FreeRingName"
    by (simp add: getNodeName_eq_FREE validPlacement_def)
  ultimately show "r \<in> set allRings \<and> nodeNameOf r \<noteq> FreeRingName" by blast
qed

lemma in_keys_iff: "k \<in> fst ` set al \<longleftrightarrow> (\<exists>v. map_of al k = Some v)"
  using map_of_eq_None_iff [of al k] by auto

lemma CastDuetGraphNodes_eq:
  "CastDuetGraphNodes = fold connectNode (map fst initialNodes) initialNodes"
  by (simp add: CastDuetGraphNodes_def parseTopologySketch_def initialNodes_def freePlaceholder_def Let_def)

lemma initialNodes_lookup:
  assumes "map_of initialNodes k = Some nd"
  shows "(k = FreeRingName \<and> nd = freePlaceholder) \<or> (\<exists>r \<in> set allRings. nd = new_Node r \<and> nodeNameOf r = k)"
  using fold_insertNode_lookup [of allRings "[(FreeRingName, freePlaceholder)]" k nd] assms
  by (auto simp: initialNodes_def generateNodes_fold split: if_splits)

lemma initialNodes_keys:
  "fst ` set initialNodes = insert FreeRingName (nodeNameOf ` set allRings)"
  by (simp add: initialNodes_def generateNodes_fold fold_insertNode_keys)

lemma initialNodes_distinct: "distinct (map fst initialNodes)"
  by (simp add: initialNodes_def generateNodes_fold fold_insertNode_distinct)

lemma initialNodes_wellNamed: "wellNamed initialNodes"
  unfolding wellNamed_def
  by (auto dest!: initialNodes_lookup simp: freePlaceholder_def)

lemma initialNodes_valid:
  assumes "validPlacement p a b c d"
  shows "map_of initialNodes (getRingName p a b c d) = Some (new_Node (ringOf p a b c d))"
proof -
  let ?k = "getRingName p a b c d"
  from assms have nf: "\<not> Ring_isFree a b c d" by (simp add: validPlacement_def)
  then have nm: "nodeNameOf (ringOf p a b c d) = ?k" by (simp add: getNodeName_not_free)
  have kF: "?k \<noteq> FreeRingName" by (simp add: FreeRingName_def getRingName_not_FREE)
  from assms have "ringOf p a b c d \<in> set allRings"
    using allRings_valid [of "ringOf p a b c d"] by blast
  then have "nodeNameOf (ringOf p a b c d) \<in> nodeNameOf ` set allRings" by (rule imageI)
  with nm have "?k \<in> fst ` set initialNodes"
    unfolding initialNodes_keys by simp
  then obtain nd where nd: "map_of initialNodes ?k = Some nd"
    unfolding in_keys_iff by blast
  from initialNodes_lookup [OF nd] kF obtain r where
    r: "r \<in> set allRings" "nd = new_Node r" "nodeNameOf r = ?k" by blast
  with kF obtain p' a' b' c' d' where v: "validPlacement p' a' b' c' d'" and r': "r = ringOf p' a' b' c' d'"
    using allRings_valid [of r] by auto
  from v have "\<not> Ring_isFree a' b' c' d'" by (simp add: validPlacement_def)
  with r(3) r' have "getRingName p' a' b' c' d' = ?k" by (simp add: getNodeName_not_free)
  from valid_name_inj [OF v assms this] r' have "r = ringOf p a b c d" by simp
  with nd r(2) show ?thesis by simp
qed

lemma graph_keys_list: "map fst CastDuetGraphNodes = map fst initialNodes"
  by (simp add: CastDuetGraphNodes_eq fold_connectNode_keys)

lemma graph_keys_set: "fst ` set CastDuetGraphNodes = fst ` set initialNodes"
proof -
  have "set (map fst CastDuetGraphNodes) = set (map fst initialNodes)"
    by (simp only: graph_keys_list)
  then show ?thesis by simp
qed

lemma graph_keys:
  "k \<in> fst ` set CastDuetGraphNodes \<longleftrightarrow>
     k = FreeRingName \<or> (\<exists>p a b c d. validPlacement p a b c d \<and> k = getRingName p a b c d)"
proof
  assume "k \<in> fst ` set CastDuetGraphNodes"
  then have "k = FreeRingName \<or> (\<exists>r \<in> set allRings. k = nodeNameOf r)"
    unfolding graph_keys_set initialNodes_keys by blast
  then show "k = FreeRingName \<or> (\<exists>p a b c d. validPlacement p a b c d \<and> k = getRingName p a b c d)"
  proof (cases "k = FreeRingName")
    case True
    then show ?thesis by simp
  next
    case False
    with \<open>k = FreeRingName \<or> (\<exists>r \<in> set allRings. k = nodeNameOf r)\<close>
    obtain r where r: "r \<in> set allRings" "k = nodeNameOf r" by blast
    with False obtain p a b c d where v: "validPlacement p a b c d" and r': "r = ringOf p a b c d"
      using allRings_valid [of r] by auto
    from v have "\<not> Ring_isFree a b c d" by (simp add: validPlacement_def)
    with r r' have "k = getRingName p a b c d" by (simp add: getNodeName_not_free)
    with v show ?thesis by blast
  qed
next
  assume "k = FreeRingName \<or> (\<exists>p a b c d. validPlacement p a b c d \<and> k = getRingName p a b c d)"
  then show "k \<in> fst ` set CastDuetGraphNodes"
  proof
    assume "k = FreeRingName"
    then show ?thesis unfolding graph_keys_set initialNodes_keys by simp
  next
    assume "\<exists>p a b c d. validPlacement p a b c d \<and> k = getRingName p a b c d"
    then obtain p a b c d where v: "validPlacement p a b c d" and k: "k = getRingName p a b c d" by blast
    from initialNodes_valid [OF v] k show ?thesis
      unfolding graph_keys_set in_keys_iff by blast
  qed
qed

lemma graph_lookup:
  assumes "validPlacement p a b c d"
  shows "map_of CastDuetGraphNodes (getRingName p a b c d) = Some (nodeOf p a b c d)"
proof -
  let ?k = "getRingName p a b c d"
  have kF: "?k \<noteq> FreeRingName" by (simp add: FreeRingName_def getRingName_not_FREE)
  have "?k \<in> fst ` set initialNodes"
    using initialNodes_valid [OF assms] unfolding in_keys_iff by blast
  then have "?k \<in> set (map fst initialNodes)" by simp
  then show ?thesis
    unfolding CastDuetGraphNodes_eq
    using fold_connectNode_other [OF initialNodes_distinct kF, of initialNodes]
      initialNodes_valid [OF assms]
    by (simp add: nodeOf_def)
qed

lemma graph_free:
  "\<exists>f. map_of CastDuetGraphNodes FreeRingName = Some f
       \<and> set (connectsTo f) \<subseteq> fst ` set CastDuetGraphNodes
       \<and> name f = FreeRingName \<and> dist f = None \<and> prev f = None"
proof -
  have "FreeRingName \<in> fst ` set initialNodes" by (simp add: initialNodes_keys)
  then obtain f0 where f0: "map_of initialNodes FreeRingName = Some f0"
    unfolding in_keys_iff by blast
  from initialNodes_lookup [OF f0] have e0: "connectsTo f0 = [] \<and> name f0 = FreeRingName \<and> dist f0 = None \<and> prev f0 = None"
    by (auto simp: freePlaceholder_def new_Node_def nodeNameOf_def)
  from fold_connectNode_free [OF initialNodes_wellNamed f0, of "map fst initialNodes"]
  obtain f where f: "map_of CastDuetGraphNodes FreeRingName = Some f"
    and s: "set (connectsTo f) \<subseteq> set (map fst initialNodes) \<union> set (connectsTo f0)"
    and e: "name f = name f0" "dist f = dist f0" "prev f = prev f0"
    unfolding CastDuetGraphNodes_eq by blast
  have "set (map fst initialNodes) = fst ` set CastDuetGraphNodes"
    by (simp add: graph_keys_set)
  with f s e e0 show ?thesis by auto
qed

lemma set_fold_freeRotationStep_cases:
  "t \<in> set (fold (freeRotationStep r) xys conns) \<Longrightarrow>
     t \<in> set conns \<or>
     (\<exists>x y. isCellFree (ringCol r + x) (ringRow r + y)
        \<and> ringSizeOk (pegCol r - (ringCol r + x)) (pegRow r - (ringRow r + y))
        \<and> t = getNodeName (pegPos r) (pegCol r) (pegRow r) (ringCol r + x) (ringRow r + y))"
proof (induction xys arbitrary: conns)
  case Nil
  then show ?case by simp
next
  case (Cons xy xys)
  from Cons.prems have "t \<in> set (fold (freeRotationStep r) xys (freeRotationStep r xy conns))" by simp
  from Cons.IH [OF this] show ?case
    by (cases xy) (auto simp: freeRotationStep_def Let_def split: if_splits)
qed

lemma connections_cases:
  assumes "t \<in> set (connectsTo (getNodeConnections (new_Node r)))"
  shows "(\<exists>s \<in> set (rotationSlots (rotation r)). t = rotationTarget r s)
       \<or> (\<exists>s \<in> set (slideSlots (rotation r)). t = slideTarget r s)
       \<or> (\<exists>x y. ringSizeOk (pegCol r - (ringCol r + x)) (pegRow r - (ringRow r + y))
            \<and> t = getNodeName (pegPos r) (pegCol r) (pegRow r) (ringCol r + x) (ringRow r + y))
       \<or> t = flipTarget r"
proof -
  let ?m = "rotationMoves r (getCellDents (pegCol r) (pegRow r)) (isCellFree (ringCol r) (ringRow r)) []"
  from assms have "t = flipTarget r \<or> t \<in> set ?m \<or> t \<in> set (freeRotations r ?m)"
    by (auto simp: getNodeConnections_def new_Node_def Let_def split: if_splits)
  moreover have "t \<in> set (freeRotations r ?m) \<Longrightarrow> t \<in> set ?m \<or>
     (\<exists>x y. ringSizeOk (pegCol r - (ringCol r + x)) (pegRow r - (ringRow r + y))
            \<and> t = getNodeName (pegPos r) (pegCol r) (pegRow r) (ringCol r + x) (ringRow r + y))"
    unfolding freeRotations_def by (drule set_fold_freeRotationStep_cases) blast
  moreover have "t \<in> set ?m \<Longrightarrow> (\<exists>s \<in> set (rotationSlots (rotation r)). t = rotationTarget r s)
       \<or> (\<exists>s \<in> set (slideSlots (rotation r)). t = slideTarget r s)"
    unfolding set_rotationMoves by (auto split: if_splits)
  ultimately show ?thesis by blast
qed

lemma flip_in_connections: "flipTarget r \<in> set (connectsTo (getNodeConnections (new_Node r)))"
  by (simp add: getNodeConnections_def new_Node_def Let_def)

lemma nonfree_peg_range:
  assumes "ringSizeOk (c - a) (d - b)" "\<not> Ring_isFree a b c d"
  shows "0 \<le> a \<and> a \<le> 4 \<and> 0 \<le> b \<and> b \<le> 4"
proof -
  from assms have k: "- 1 \<le> c - a" "c - a \<le> 1" "- 1 \<le> d - b" "d - b \<le> 1"
    and nf: "\<not> isCellFree a b \<or> \<not> isCellFree c d"
    by (simp_all add: ringSizeOk_iff Ring_isFree_def)
  from nf show ?thesis
  proof
    assume "\<not> isCellFree a b"
    then show ?thesis by (simp add: isCellFree_def)
  next
    assume "\<not> isCellFree c d"
    then have "1 \<le> c" "c \<le> 3" "1 \<le> d" "d \<le> 3" by (simp_all add: isCellFree_def)
    with k show ?thesis by simp
  qed
qed

lemma step_in_graph:
  assumes "p = PegPosUp \<or> p = PegPosDown" "ringSizeOk (c - a) (d - b)"
  shows "getNodeName p a b c d \<in> fst ` set CastDuetGraphNodes"
proof (cases "Ring_isFree a b c d")
  case True
  then show ?thesis by (simp add: getNodeName_def graph_keys)
next
  case False
  with assms nonfree_peg_range [OF assms(2) False] have "validPlacement p a b c d"
    by (simp add: validPlacement_def)
  moreover from False have "getNodeName p a b c d = getRingName p a b c d"
    by (rule getNodeName_not_free)
  ultimately show ?thesis unfolding graph_keys by blast
qed

lemma rotation_step_ok:
  assumes "ringSizeOk (c - a) (d - b)" "s \<in> set (rotationSlots (rotationOf (c - a) (d - b)))"
  shows "ringSizeOk (c - (a + fst (slotDelta s))) (d - (b + snd (slotDelta s)))"
proof -
  define x y where "x = c - a" and "y = d - b"
  then have e: "c - (a + u) = x - u" "d - (b + v) = y - v" for u v by simp_all
  from assms have "ringSizeOk x y" "s \<in> set (rotationSlots (rotationOf x y))"
    by (simp_all add: x_def y_def)
  then have "ringSizeOk (x - fst (slotDelta s)) (y - snd (slotDelta s))"
    unfolding ringSizeOk_cases [of x y]
    by (elim disjE conjE)
       (auto simp: rotationOf_def rotationSlots_def slotDelta_def ringSizeOk_code)
  then show ?thesis by (simp only: e)
qed

lemma ringSizeOk_neg: "ringSizeOk (a - c) (b - d) \<Longrightarrow> ringSizeOk (c - a) (d - b)"
  unfolding ringSizeOk_iff by auto

lemma target_in_graph:
  assumes v: "validPlacement p a b c d" and t: "t \<in> set (connectsTo (nodeOf p a b c d))"
  shows "t \<in> fst ` set CastDuetGraphNodes"
proof -
  let ?r = "ringOf p a b c d"
  from v have p: "p = PegPosUp \<or> p = PegPosDown" and k: "ringSizeOk (c - a) (d - b)"
    by (simp_all add: validPlacement_def)
  from connections_cases [OF t [unfolded nodeOf_def]]
  consider s where "s \<in> set (rotationSlots (rotationOf (c - a) (d - b)))" "t = rotationTarget ?r s"
    | s where "t = slideTarget ?r s"
    | x y where "ringSizeOk (a - (c + x)) (b - (d + y))" "t = getNodeName p a b (c + x) (d + y)"
    | "t = flipTarget ?r"
    by auto
  then show ?thesis
  proof cases
    case 1
    from rotation_step_ok [OF k 1(1)] p show ?thesis
      unfolding 1(2) rotationTarget_def by (simp add: step_in_graph)
  next
    case 2
    have "ringSizeOk (c + fst (slotDelta s) - (a + fst (slotDelta s))) (d + snd (slotDelta s) - (b + snd (slotDelta s)))"
      using k by simp
    with p show ?thesis
      unfolding 2 slideTarget_def by (simp add: step_in_graph del: add_diff_cancel_right')
  next
    case 3
    from 3(1) have "ringSizeOk (c + x - a) (d + y - b)" by (rule ringSizeOk_neg)
    with p show ?thesis unfolding 3(2) by (rule step_in_graph)
  next
    case 4
    have "ringSizeOk (a - c) (b - d)" using k ringSizeOk_neg [of c a d b] by simp
    moreover have "(if p = PegPosDown then PegPosUp else PegPosDown) = PegPosUp
         \<or> (if p = PegPosDown then PegPosUp else PegPosDown) = PegPosDown" by simp
    ultimately show ?thesis
      unfolding 4 flipTarget_def by (simp add: step_in_graph)
  qed
qed

lemma graph_distinct: "distinct (map fst CastDuetGraphNodes)"
  by (simp add: graph_keys_list initialNodes_distinct)

lemma graph_entry:
  assumes "(k, nd) \<in> set CastDuetGraphNodes"
  shows "map_of CastDuetGraphNodes k = Some nd"
  using graph_distinct assms by (rule map_of_is_SomeI)

lemma graph_node_cases:
  assumes "map_of CastDuetGraphNodes k = Some nd" "k \<noteq> FreeRingName"
  shows "\<exists>p a b c d. validPlacement p a b c d \<and> k = getRingName p a b c d \<and> nd = nodeOf p a b c d"
proof -
  from assms(1) have "k \<in> fst ` set CastDuetGraphNodes" unfolding in_keys_iff by blast
  with assms(2) obtain p a b c d where v: "validPlacement p a b c d" and k: "k = getRingName p a b c d"
    unfolding graph_keys by blast
  from graph_lookup [OF v] assms(1) k have "nd = nodeOf p a b c d" by simp
  with v k show ?thesis by blast
qed

lemma graph_closed:
  assumes "map_of CastDuetGraphNodes k = Some nd" "t \<in> set (connectsTo nd)"
  shows "t \<in> fst ` set CastDuetGraphNodes"
proof (cases "k = FreeRingName")
  case True
  with graph_free assms show ?thesis by auto
next
  case False
  from graph_node_cases [OF assms(1) False] obtain p a b c d where
    "validPlacement p a b c d" "nd = nodeOf p a b c d" by blast
  with assms(2) show ?thesis using target_in_graph by blast
qed

lemma valid_initial: "validPlacement ''U'' 3 1 4 1"
  by (simp add: validPlacement_def PegPosUp_def ringSizeOk_code Ring_isFree_def isCellFree_def)

lemma getRingName_initial: "getRingName ''U'' 3 1 4 1 = ''U(3,1)-(4,1)''"
  by (simp add: getRingName_chars numberToString_def natToString.simps)

lemma graph_initial_entry: "(''U(3,1)-(4,1)'', nodeOf ''U'' 3 1 4 1) \<in> set CastDuetGraphNodes"
  using graph_lookup [OF valid_initial] unfolding getRingName_initial by (rule map_of_SomeD)

lemma initial_not_FREE: "''U(3,1)-(4,1)'' \<noteq> FreeRingName"
  by (simp add: FreeRingName_def)

lemma flipTarget_initial: "flipTarget (ringOf ''U'' 3 1 4 1) = ''D(4,1)-(3,1)''"
  by (simp add: flipTarget_def getNodeName_def Ring_isFree_def isCellFree_def PegPosUp_def
      PegPosDown_def getRingName_chars numberToString_def natToString.simps)

lemma flip_initial_edge: "''D(4,1)-(3,1)'' \<in> set (connectsTo (nodeOf ''U'' 3 1 4 1))"
  using flip_in_connections [of "ringOf ''U'' 3 1 4 1"] by (simp add: flipTarget_initial nodeOf_def)

text \<open>
  Claim C10. Adjacency in the built graph is closed: every name in the
  \<^verbatim>\<open>connectsTo\<close> set of a node of the table is a key of the table, and is \<^verbatim>\<open>FREE\<close>
  or the name of an enumerated ring.
\<close>

theorem adjacency_closed:
  "(k, nd) \<in> set CastDuetGraphNodes \<Longrightarrow> t \<in> set (connectsTo nd) \<Longrightarrow>
     t \<in> fst ` set CastDuetGraphNodes
     \<and> (t = FreeRingName \<or> (\<exists>r \<in> set allRings. t = nodeNameOf r))"
proof -
  assume a: "(k, nd) \<in> set CastDuetGraphNodes" "t \<in> set (connectsTo nd)"
  from graph_closed [OF graph_entry [OF a(1)] a(2)] have "t \<in> fst ` set CastDuetGraphNodes" .
  then show ?thesis unfolding graph_keys_set initialNodes_keys by blast
qed

theorem adjacency_closed_witness:
  "(''U(3,1)-(4,1)'', nodeOf ''U'' 3 1 4 1) \<in> set CastDuetGraphNodes
   \<and> ''D(4,1)-(3,1)'' \<in> set (connectsTo (nodeOf ''U'' 3 1 4 1))
   \<and> ''D(4,1)-(3,1)'' \<in> fst ` set CastDuetGraphNodes"
  using adjacency_closed [OF graph_initial_entry flip_initial_edge]
    graph_initial_entry flip_initial_edge by blast

text \<open>
  Claim C7. Every node of the built graph other than FREE carries a ring with
  orientation U or D, is named after it, and has an edge to the node named by swapping
  the peg and ring cells and inverting the orientation; that node is in the graph and is
  not FREE. No dent marker is asked for.
\<close>

theorem flip_edge:
  assumes "(k, nd) \<in> set CastDuetGraphNodes" "k \<noteq> FreeRingName"
  shows "\<exists>r. ring nd = Some r
          \<and> k = getRingName (pegPos r) (pegCol r) (pegRow r) (ringCol r) (ringRow r)
          \<and> (pegPos r = PegPosUp \<or> pegPos r = PegPosDown)
          \<and> flippedName r \<in> set (connectsTo nd)
          \<and> flippedName r \<in> fst ` set CastDuetGraphNodes
          \<and> flippedName r \<noteq> FreeRingName"
proof -
  from graph_node_cases [OF graph_entry [OF assms(1)] assms(2)] obtain p a b c d where
    v: "validPlacement p a b c d" and k: "k = getRingName p a b c d" and nd: "nd = nodeOf p a b c d"
    by blast
  let ?r = "ringOf p a b c d"
  from v have p: "p = PegPosUp \<or> p = PegPosDown" and nf: "\<not> Ring_isFree c d a b"
    by (auto simp: validPlacement_def Ring_isFree_def)
  have r: "ring nd = Some ?r" by (simp add: nd nodeOf_def getNodeConnections_def new_Node_def Let_def)
  from p nf have fl: "flipTarget ?r = flippedName ?r"
    by (auto simp: flipTarget_def flippedName_def getNodeName_not_free PegPosUp_def PegPosDown_def)
  have "flipTarget ?r \<in> set (connectsTo nd)" unfolding nd nodeOf_def by (rule flip_in_connections)
  with fl have m: "flippedName ?r \<in> set (connectsTo nd)" by simp
  from graph_closed [OF graph_entry [OF assms(1)] m] have kk: "flippedName ?r \<in> fst ` set CastDuetGraphNodes" .
  have "flippedName ?r \<noteq> FreeRingName"
    by (simp add: flippedName_def FreeRingName_def getRingName_not_FREE)
  with r k p m kk show ?thesis by (intro exI [of _ ?r]) simp
qed

theorem flip_edge_witness:
  "(''U(3,1)-(4,1)'', nodeOf ''U'' 3 1 4 1) \<in> set CastDuetGraphNodes
   \<and> ''U(3,1)-(4,1)'' \<noteq> FreeRingName
   \<and> (\<exists>r. ring (nodeOf ''U'' 3 1 4 1) = Some r
          \<and> ''U(3,1)-(4,1)'' = getRingName (pegPos r) (pegCol r) (pegRow r) (ringCol r) (ringRow r)
          \<and> flippedName r \<in> set (connectsTo (nodeOf ''U'' 3 1 4 1))
          \<and> flippedName r \<in> fst ` set CastDuetGraphNodes)"
  using flip_edge [OF graph_initial_entry initial_not_FREE] graph_initial_entry initial_not_FREE
  by blast

lemma certAll_holds: "certAll"
  by code_simp

lemma deltas8_iff: "(x, y) \<in> set deltas8 \<longleftrightarrow> ringSizeOk x y"
  unfolding ringSizeOk_cases deltas8_def by auto

lemma cert_valid:
  assumes "validPlacement p a b c d"
  shows "certStep p a b c d"
proof -
  from assms have p: "p \<in> set [PegPosUp, PegPosDown]" and ab: "(a, b) \<in> set allCells"
    and k: "(c - a, d - b) \<in> set deltas8" and nf: "\<not> Ring_isFree a b c d"
    by (simp_all add: validPlacement_def allCells_iff deltas8_iff)
  from certAll_holds ab have "certCell a b"
    unfolding certAll_def list_all_iff by blast
  with p k have "Ring_isFree a b (a + (c - a)) (b + (d - b)) \<or> certStep p a b (a + (c - a)) (b + (d - b))"
    unfolding certCell_def list_all_iff by blast
  with nf show ?thesis by simp
qed

lemma set_fold_freeRotationStep_intro:
  assumes "(x, y) \<in> set xys" "\<not> (x = 0 \<and> y = 0)" "isCellFree (ringCol r + x) (ringRow r + y)"
    "ringSizeOk (pegCol r - (ringCol r + x)) (pegRow r - (ringRow r + y))"
  shows "getNodeName (pegPos r) (pegCol r) (pegRow r) (ringCol r + x) (ringRow r + y)
           \<in> set (fold (freeRotationStep r) xys conns)"
  using assms(1)
proof (induction xys arbitrary: conns)
  case Nil
  then show ?case by simp
next
  case (Cons xy xys)
  show ?case
  proof (cases "xy = (x, y)")
    case True
    have "getNodeName (pegPos r) (pegCol r) (pegRow r) (ringCol r + x) (ringRow r + y)
            \<in> set (freeRotationStep r (x, y) conns)"
      using assms(2-4) by (auto simp: freeRotationStep_def Let_def)
    then show ?thesis
      using set_fold_freeRotationStep [of "freeRotationStep r (x, y) conns" r xys] True by auto
  next
    case False
    with Cons.prems have "(x, y) \<in> set xys" by auto
    from Cons.IH [OF this] show ?thesis by simp
  qed
qed

lemma deltas8_in_loop:
  "(x, y) \<in> set deltas8 \<Longrightarrow>
     (x, y) \<in> set (concat (map (\<lambda>x. map (\<lambda>y. (x, y)) [- 1, 0, 1]) [- 1, 0, 1])) \<and> \<not> (x = 0 \<and> y = 0)"
  unfolding set_pairs deltas8_def by auto

lemma targets_sound:
  assumes v: "validPlacement p a b c d" and t: "t \<in> set (targets p a b c d)"
  shows "nameT t \<in> set (connectsTo (nodeOf p a b c d))"
proof -
  let ?r = "ringOf p a b c d"
  let ?dents = "getCellDents a b"
  let ?free = "isCellFree c d"
  let ?m = "rotationMoves ?r ?dents ?free []"
  have conn: "set (connectsTo (nodeOf p a b c d)) =
      insert (flipTarget ?r) (if ?free then set (freeRotations ?r ?m) else set ?m)"
    by (simp add: nodeOf_def getNodeConnections_def new_Node_def Let_def)
  have mono: "set ?m \<subseteq> set (connectsTo (nodeOf p a b c d))"
    unfolding conn using set_freeRotations_mono [of ?m ?r] by auto
  from t consider
      s where "s \<in> set (rotationSlots (rotationOf (c - a) (d - b)))" "dentCompatible p (?dents s)"
        "t = (p, a + fst (slotDelta s), b + snd (slotDelta s), c, d)"
    | s where "?free" "s \<in> set (slideSlots (rotationOf (c - a) (d - b)))" "dentCompatible p (?dents s)"
        "t = (p, a + fst (slotDelta s), b + snd (slotDelta s), c + fst (slotDelta s), d + snd (slotDelta s))"
    | x y where "?free" "(x, y) \<in> set deltas8" "isCellFree (c + x) (d + y)"
        "ringSizeOk (a - (c + x)) (b - (d + y))" "t = (p, a, b, c + x, d + y)"
    | "t = (flipPeg p, c, d, a, b)"
    unfolding targets_def Let_def by (auto split: if_splits)
  then show ?thesis
  proof cases
    case 1
    then have "nameT t \<in> set ?m"
      unfolding set_rotationMoves by (auto simp: nameT_def rotationTarget_def)
    with mono show ?thesis by blast
  next
    case 2
    then have "nameT t \<in> set ?m"
      unfolding set_rotationMoves by (auto simp: nameT_def slideTarget_def)
    with mono show ?thesis by blast
  next
    case 3
    from deltas8_in_loop [OF 3(2)] 3(3,4)
    have "getNodeName (pegPos ?r) (pegCol ?r) (pegRow ?r) (ringCol ?r + x) (ringRow ?r + y)
           \<in> set (freeRotations ?r ?m)"
      unfolding freeRotations_def
      by (intro set_fold_freeRotationStep_intro) simp_all
    with 3(1,5) show ?thesis unfolding conn by (simp add: nameT_def)
  next
    case 4
    then show ?thesis unfolding conn by (simp add: nameT_def flipTarget_def flipPeg_def)
  qed
qed

lemma targets_step:
  assumes v: "validPlacement p a b c d" and t: "(p', a', b', c', d') \<in> set (targets p a b c d)"
  shows "(p' = PegPosUp \<or> p' = PegPosDown) \<and> ringSizeOk (c' - a') (d' - b')"
proof -
  from v have p: "p = PegPosUp \<or> p = PegPosDown" and k: "ringSizeOk (c - a) (d - b)"
    by (simp_all add: validPlacement_def)
  from t consider
      s where "s \<in> set (rotationSlots (rotationOf (c - a) (d - b)))"
        "(p', a', b', c', d') = (p, a + fst (slotDelta s), b + snd (slotDelta s), c, d)"
    | s where
        "(p', a', b', c', d') = (p, a + fst (slotDelta s), b + snd (slotDelta s), c + fst (slotDelta s), d + snd (slotDelta s))"
    | x y where "ringSizeOk (a - (c + x)) (b - (d + y))" "(p', a', b', c', d') = (p, a, b, c + x, d + y)"
    | "(p', a', b', c', d') = (flipPeg p, c, d, a, b)"
    unfolding targets_def Let_def by (auto split: if_splits)
  then show ?thesis
  proof cases
    case 1
    with rotation_step_ok [OF k 1(1)] p show ?thesis by simp
  next
    case 2
    with k p show ?thesis by simp
  next
    case 3
    from 3(1) have "ringSizeOk (c + x - a) (d + y - b)" by (rule ringSizeOk_neg)
    with 3(2) p show ?thesis by simp
  next
    case 4
    have "ringSizeOk (a - c) (b - d)" using k ringSizeOk_neg [of c a d b] by simp
    with 4 p show ?thesis by (auto simp: flipPeg_def)
  qed
qed

lemma reach_FREE:
  assumes "validPlacement p a b c d"
  shows "(edge CastDuetGraphNodes)\<^sup>*\<^sup>* (getRingName p a b c d) FreeRingName"
  using assms
proof (induction "rank p a b c d" arbitrary: p a b c d rule: less_induct)
  case less
  note v = less.prems
  from cert_valid [OF v] obtain t where t: "t \<in> set (targets p a b c d)"
    and cl: "closer (rank p a b c d) t"
    unfolding certStep_def list_ex_iff by blast
  obtain p' a' b' c' d' where t': "t = (p', a', b', c', d')" by (cases t) auto
  from targets_sound [OF v t] graph_lookup [OF v]
  have e: "edge CastDuetGraphNodes (getRingName p a b c d) (getNodeName p' a' b' c' d')"
    by (simp add: edge_def nameT_def t')
  from targets_step [OF v t [unfolded t']]
  have st: "p' = PegPosUp \<or> p' = PegPosDown" "ringSizeOk (c' - a') (d' - b')" by simp_all
  show ?case
  proof (cases "Ring_isFree a' b' c' d'")
    case True
    then have "getNodeName p' a' b' c' d' = FreeRingName" by (simp add: getNodeName_def)
    with e show ?thesis by auto
  next
    case False
    with st nonfree_peg_range [OF st(2) False] have v': "validPlacement p' a' b' c' d'"
      by (simp add: validPlacement_def)
    from cl False have "rank p' a' b' c' d' < rank p a b c d" by (simp add: closer_def t')
    from less.hyps [OF this v'] have "(edge CastDuetGraphNodes)\<^sup>*\<^sup>* (getRingName p' a' b' c' d') FreeRingName" .
    moreover from e False have "edge CastDuetGraphNodes (getRingName p a b c d) (getRingName p' a' b' c' d')"
      by (simp add: getNodeName_not_free)
    ultimately show ?thesis by (rule converse_rtranclp_into_rtranclp [rotated])
  qed
qed

text \<open>
  Claim C3. The built graph is connected towards FREE: from every node other than FREE
  a path of \<^verbatim>\<open>connectsTo\<close> edges leads to the FREE node.
\<close>

theorem graph_connected:
  "k \<in> fst ` set CastDuetGraphNodes \<Longrightarrow> k \<noteq> FreeRingName \<Longrightarrow>
     (edge CastDuetGraphNodes)\<^sup>*\<^sup>* k FreeRingName"
  unfolding graph_keys using reach_FREE by blast

theorem graph_connected_witness:
  "''U(3,1)-(4,1)'' \<in> fst ` set CastDuetGraphNodes
   \<and> ''U(3,1)-(4,1)'' \<noteq> FreeRingName
   \<and> (edge CastDuetGraphNodes)\<^sup>*\<^sup>* ''U(3,1)-(4,1)'' FreeRingName"
proof -
  have k: "''U(3,1)-(4,1)'' \<in> fst ` set CastDuetGraphNodes"
    using graph_initial_entry by (rule image_eqI [rotated]) simp
  from graph_connected [OF k initial_not_FREE] k initial_not_FREE show ?thesis by blast
qed

subsection \<open>The edges of a node\<close>

lemma set_freeRotationStep_eq:
  "set (freeRotationStep r (x, y) conns) =
     set conns \<union>
     (if \<not> (x = 0 \<and> y = 0) \<and> isCellFree (ringCol r + x) (ringRow r + y)
          \<and> ringSizeOk (pegCol r - (ringCol r + x)) (pegRow r - (ringRow r + y))
      then {getNodeName (pegPos r) (pegCol r) (pegRow r) (ringCol r + x) (ringRow r + y)} else {})"
  by (auto simp: freeRotationStep_def Let_def)

lemma set_fold_freeRotationStep_eq:
  "set (fold (freeRotationStep r) xys conns) =
     set conns \<union>
     {getNodeName (pegPos r) (pegCol r) (pegRow r) (ringCol r + x) (ringRow r + y) | x y.
        (x, y) \<in> set xys \<and> \<not> (x = 0 \<and> y = 0) \<and> isCellFree (ringCol r + x) (ringRow r + y)
        \<and> ringSizeOk (pegCol r - (ringCol r + x)) (pegRow r - (ringRow r + y))}"
proof (induction xys arbitrary: conns)
  case Nil
  then show ?case by simp
next
  case (Cons xy xys)
  obtain x y where xy: "xy = (x, y)" by (cases xy)
  show ?case
    unfolding xy fold_Cons comp_apply Cons.IH set_freeRotationStep_eq
    by (auto split: if_splits)
qed

lemma loop_deltas8:
  "(x, y) \<in> set (concat (map (\<lambda>x. map (\<lambda>y. (x, y)) [- 1, 0, 1]) [- 1, 0, 1])) \<and> \<not> (x = 0 \<and> y = 0)
     \<longleftrightarrow> (x, y) \<in> set deltas8"
  unfolding set_pairs deltas8_def by auto

lemma set_freeRotations:
  "set (freeRotations r conns) =
     set conns \<union>
     set (map (\<lambda>(x, y). getNodeName (pegPos r) (pegCol r) (pegRow r) (ringCol r + x) (ringRow r + y))
            (filter (\<lambda>(x, y). isCellFree (ringCol r + x) (ringRow r + y)
                       \<and> ringSizeOk (pegCol r - (ringCol r + x)) (pegRow r - (ringRow r + y)))
               deltas8))"
proof -
  have "{getNodeName (pegPos r) (pegCol r) (pegRow r) (ringCol r + x) (ringRow r + y) | x y.
        (x, y) \<in> set (concat (map (\<lambda>x. map (\<lambda>y. (x, y)) [- 1, 0, 1]) [- 1, 0, 1]))
        \<and> \<not> (x = 0 \<and> y = 0) \<and> isCellFree (ringCol r + x) (ringRow r + y)
        \<and> ringSizeOk (pegCol r - (ringCol r + x)) (pegRow r - (ringRow r + y))}
      = {getNodeName (pegPos r) (pegCol r) (pegRow r) (ringCol r + x) (ringRow r + y) | x y.
        (x, y) \<in> set deltas8 \<and> isCellFree (ringCol r + x) (ringRow r + y)
        \<and> ringSizeOk (pegCol r - (ringCol r + x)) (pegRow r - (ringRow r + y))}"
    using loop_deltas8 by blast
  also have "\<dots> = set (map (\<lambda>(x, y). getNodeName (pegPos r) (pegCol r) (pegRow r) (ringCol r + x) (ringRow r + y))
            (filter (\<lambda>(x, y). isCellFree (ringCol r + x) (ringRow r + y)
                       \<and> ringSizeOk (pegCol r - (ringCol r + x)) (pegRow r - (ringRow r + y)))
               deltas8))"
    by (simp only: set_map set_filter) force
  finally show ?thesis
    unfolding freeRotations_def set_fold_freeRotationStep_eq by simp
qed

lemma set_legalMoves:
  "set (legalMoves r) =
     set (rotationMoves r (getCellDents (pegCol r) (pegRow r)) (isCellFree (ringCol r) (ringRow r)) [])"
  unfolding set_rotationMoves legalMoves_def Let_def by simp

lemma connections_exact:
  "set (connectsTo (getNodeConnections (new_Node r))) =
     set (legalMoves r) \<union> set (freeTurns r) \<union> {flipTarget r}"
proof (cases "isCellFree (ringCol r) (ringRow r)")
  case True
  then show ?thesis
    by (simp add: getNodeConnections_def new_Node_def Let_def set_freeRotations set_legalMoves
        freeTurns_def Un_commute)
next
  case False
  then show ?thesis
    by (simp add: getNodeConnections_def new_Node_def Let_def set_legalMoves freeTurns_def)
qed

lemma legalMoves_iff:
  "t \<in> set (legalMoves r) \<longleftrightarrow>
      (\<exists>s \<in> set (rotationSlots (rotation r)).
          dentCompatible (pegPos r) (getCellDents (pegCol r) (pegRow r) s) \<and> t = rotationTarget r s)
      \<or> (isCellFree (ringCol r) (ringRow r) \<and>
          (\<exists>s \<in> set (slideSlots (rotation r)).
              dentCompatible (pegPos r) (getCellDents (pegCol r) (pegRow r) s) \<and> t = slideTarget r s))"
  unfolding legalMoves_def Let_def by auto

lemma graph_node_edges:
  assumes "(k, nd) \<in> set CastDuetGraphNodes" "k \<noteq> FreeRingName"
  shows "\<exists>r. ring nd = Some r \<and> k = nodeNameOf r
           \<and> set (connectsTo nd) = set (legalMoves r) \<union> set (freeTurns r) \<union> {flipTarget r}"
proof -
  from graph_node_cases [OF graph_entry [OF assms(1)] assms(2)] obtain p a b c d where
    v: "validPlacement p a b c d" and k: "k = getRingName p a b c d" and nd: "nd = nodeOf p a b c d"
    by blast
  let ?r = "ringOf p a b c d"
  from v have "\<not> Ring_isFree a b c d" by (simp add: validPlacement_def)
  then have "k = nodeNameOf ?r" by (simp add: k getNodeName_not_free)
  moreover have "ring nd = Some ?r"
    by (simp add: nd nodeOf_def getNodeConnections_def new_Node_def Let_def)
  moreover have "set (connectsTo nd) = set (legalMoves ?r) \<union> set (freeTurns ?r) \<union> {flipTarget ?r}"
    unfolding nd nodeOf_def by (rule connections_exact)
  ultimately show ?thesis by blast
qed

lemma getCellDents_1_1:
  "getCellDents 1 1 BR = None" "getCellDents 1 1 BL = Some CHR ''B''"
  by (simp_all add: getCellDents_def getSketchDent_def CastDuetTopologySketch_def Let_def)

lemma left_ring_in_graph:
  "map_of CastDuetGraphNodes ''U(1,1)-(0,1)''
     = Some (getNodeConnections (new_Node (new_Ring ''U'' 1 1 0 1 1)))"
proof -
  have v: "validPlacement ''U'' 1 1 0 1"
    by (simp add: validPlacement_def PegPosUp_def ringSizeOk_code Ring_isFree_def isCellFree_def)
  have n: "getRingName ''U'' 1 1 0 1 = ''U(1,1)-(0,1)''"
    by (simp add: getRingName_chars numberToString_def natToString.simps)
  from graph_lookup [OF v] show ?thesis
    by (simp add: n nodeOf_def ringOf_def rotationOf_def)
qed

text \<open>
  Claim C4, as stated, fails when it is read move by move on the edges: the node
  \<^verbatim>\<open>U(1,1)-(0,1)\<close> has rotation index 1, whose candidate rotation through the slot
  bottom-right has no dent marker, yet the destination of that move, FREE, is an outgoing
  edge of the node: the slide through the slot bottom-left, whose marker is B, leads to
  FREE too.
\<close>

theorem move_without_dent_is_edge:
  "rotation (new_Ring ''U'' 1 1 0 1 1) = 1
   \<and> BR \<in> set (rotationSlots 1)
   \<and> getCellDents 1 1 BR = None
   \<and> \<not> dentCompatible ''U'' (getCellDents 1 1 BR)
   \<and> rotationTarget (new_Ring ''U'' 1 1 0 1 1) BR = ''FREE''
   \<and> ''FREE'' \<in> set (connectsTo (getNodeConnections (new_Node (new_Ring ''U'' 1 1 0 1 1))))
   \<and> map_of CastDuetGraphNodes ''U(1,1)-(0,1)''
       = Some (getNodeConnections (new_Node (new_Ring ''U'' 1 1 0 1 1)))"
proof -
  let ?r = "new_Ring ''U'' 1 1 0 1 1"
  have 1: "BR \<in> set (rotationSlots 1)" by (simp add: rotationSlots_def)
  have 2: "\<not> dentCompatible ''U'' (getCellDents 1 1 BR)"
    by (simp add: getCellDents_1_1 dentCompatible_def)
  have 3: "rotationTarget ?r BR = ''FREE''"
    by (simp add: rotationTarget_def new_Ring_def slotDelta_def getNodeName_def Ring_isFree_def
        isCellFree_def FreeRingName_def)
  have sl: "slideTarget ?r BL = ''FREE''"
    by (simp add: slideTarget_def new_Ring_def slotDelta_def getNodeName_def Ring_isFree_def
        isCellFree_def FreeRingName_def)
  have "BL \<in> set (slideSlots (rotation ?r))" "isCellFree (ringCol ?r) (ringRow ?r)"
    "dentCompatible (pegPos ?r) (getCellDents (pegCol ?r) (pegRow ?r) BL)"
    by (simp_all add: new_Ring_def slideSlots_def isCellFree_def getCellDents_1_1
        dentCompatible_def PegPosUp_def)
  with sl have "''FREE'' \<in> set (legalMoves ?r)"
    unfolding legalMoves_iff by (metis (no_types))
  then have 4: "''FREE'' \<in> set (connectsTo (getNodeConnections (new_Node ?r)))"
    unfolding connections_exact by simp
  have 5: "rotation ?r = 1" by (simp add: new_Ring_def)
  from 1 2 3 4 5 left_ring_in_graph getCellDents_1_1(1) show ?thesis by blast
qed

text \<open>
  Claim C4, amended. The outgoing edges of the node of a ring are exactly the targets of
  its legal moves, its free turns and its flip. A node is the target of a legal move
  exactly when it is the target of a candidate rotation of the rotation index, or of a
  candidate slide when the ring cell is outside the frame, whose tested dent marker is
  present and compatible with the peg orientation (D or B for an Up peg, H or B for a
  Down peg). The target keeps the orientation, its peg cell is shifted by the step of the
  slot, and its ring cell is shifted, by the same step, only by a slide; it is named by
  \<^verbatim>\<open>getNodeName\<close>, so it is FREE when both its cells are outside the frame. Every node
  of the built graph other than FREE has exactly these edges, for the ring it carries.
\<close>

theorem node_edges_exact:
  "set (connectsTo (getNodeConnections (new_Node r))) =
     set (legalMoves r) \<union> set (freeTurns r) \<union> {flipTarget r}
   \<and> (t \<in> set (legalMoves r) \<longleftrightarrow>
        (\<exists>s \<in> set (rotationSlots (rotation r)).
            dentCompatible (pegPos r) (getCellDents (pegCol r) (pegRow r) s) \<and> t = rotationTarget r s)
        \<or> (isCellFree (ringCol r) (ringRow r) \<and>
            (\<exists>s \<in> set (slideSlots (rotation r)).
                dentCompatible (pegPos r) (getCellDents (pegCol r) (pegRow r) s) \<and> t = slideTarget r s)))
   \<and> ((k, nd) \<in> set CastDuetGraphNodes \<and> k \<noteq> FreeRingName \<longrightarrow>
        (\<exists>r'. ring nd = Some r' \<and> k = nodeNameOf r'
           \<and> set (connectsTo nd) = set (legalMoves r') \<union> set (freeTurns r') \<union> {flipTarget r'}))"
  using connections_exact [of r] legalMoves_iff [of t r] graph_node_edges [of k nd] by blast

lemma initial_ring_fields:
  "pegPos (new_Ring ''U'' 3 1 4 1 5) = ''U''" "pegCol (new_Ring ''U'' 3 1 4 1 5) = 3"
  "pegRow (new_Ring ''U'' 3 1 4 1 5) = 1" "ringCol (new_Ring ''U'' 3 1 4 1 5) = 4"
  "ringRow (new_Ring ''U'' 3 1 4 1 5) = 1" "rotation (new_Ring ''U'' 3 1 4 1 5) = 5"
  by (simp_all add: new_Ring_def)

lemma initial_rotation_target: "rotationTarget (new_Ring ''U'' 3 1 4 1 5) TL = ''U(3,2)-(4,1)''"
  by (simp add: rotationTarget_def initial_ring_fields slotDelta_def getNodeName_def Ring_isFree_def
      isCellFree_def getRingName_chars numberToString_def natToString.simps)

theorem node_edges_exact_witness:
  "TL \<in> set (rotationSlots 5)
   \<and> dentCompatible ''U'' (getCellDents 3 1 TL)
   \<and> ''U(3,2)-(4,1)'' \<in> set (legalMoves (new_Ring ''U'' 3 1 4 1 5))
   \<and> ''U(3,2)-(4,1)'' \<in> set (connectsTo (getNodeConnections (new_Node (new_Ring ''U'' 3 1 4 1 5))))
   \<and> (''U(3,1)-(4,1)'', nodeOf ''U'' 3 1 4 1) \<in> set CastDuetGraphNodes
   \<and> ''U(3,1)-(4,1)'' \<noteq> FreeRingName
   \<and> (\<exists>r'. ring (nodeOf ''U'' 3 1 4 1) = Some r' \<and> ''U(3,1)-(4,1)'' = nodeNameOf r'
         \<and> set (connectsTo (nodeOf ''U'' 3 1 4 1))
             = set (legalMoves r') \<union> set (freeTurns r') \<union> {flipTarget r'})"
proof -
  let ?r = "new_Ring ''U'' 3 1 4 1 5"
  have slot: "TL \<in> set (rotationSlots 5)" by (simp add: rotationSlots_def)
  have compat: "dentCompatible ''U'' (getCellDents 3 1 TL)"
    by (simp add: getCellDents_3_1_TL dentCompatible_def PegPosUp_def)
  note exact = node_edges_exact [of ?r "''U(3,2)-(4,1)''" "''U(3,1)-(4,1)''" "nodeOf ''U'' 3 1 4 1",
      unfolded initial_ring_fields]
  from slot compat initial_rotation_target have "\<exists>s \<in> set (rotationSlots 5).
      dentCompatible ''U'' (getCellDents 3 1 s) \<and> ''U(3,2)-(4,1)'' = rotationTarget ?r s"
    by (intro bexI [of _ TL]) simp_all
  with exact have m: "''U(3,2)-(4,1)'' \<in> set (legalMoves ?r)" by blast
  with exact have e: "''U(3,2)-(4,1)'' \<in> set (connectsTo (getNodeConnections (new_Node ?r)))"
    by blast
  from exact graph_initial_entry initial_not_FREE
  have g: "\<exists>r'. ring (nodeOf ''U'' 3 1 4 1) = Some r' \<and> ''U(3,1)-(4,1)'' = nodeNameOf r'
         \<and> set (connectsTo (nodeOf ''U'' 3 1 4 1))
             = set (legalMoves r') \<union> set (freeTurns r') \<union> {flipTarget r'}"
    by blast
  from slot compat m e graph_initial_entry initial_not_FREE g show ?thesis by blast
qed

subsection \<open>The search\<close>

lemma skeleton_update:
  assumes "map_of al k = Some v" "ring v' = ring v" "name v' = name v" "connectsTo v' = connectsTo v"
  shows "skeleton (AList.update k v' al) = skeleton al"
  using assms(1)
proof (induction al)
  case Nil
  then show ?case by simp
next
  case (Cons x al)
  then show ?case using assms(2-4)
    by (cases x) (auto simp: skeleton_def split: if_splits)
qed

lemma skeleton_keys: "map fst (skeleton g) = map fst g"
  by (induction g) (auto simp: skeleton_def)

lemma relax_skeleton: "skeleton (snd (relax u ud vs nodes)) = skeleton nodes"
proof (induction vs arbitrary: nodes)
  case Nil
  then show ?case by simp
next
  case (Cons v vs)
  show ?case
  proof (cases "map_of nodes v")
    case None
    then show ?thesis by (simp add: Let_def)
  next
    case (Some vnode)
    have "skeleton (AList.update v (vnode\<lparr>dist := Some (ud + 1), prev := Some u\<rparr>) nodes) = skeleton nodes"
      using Some by (rule skeleton_update) simp_all
    with Some show ?thesis
      by (auto simp: Let_def Cons.IH split: option.splits)
  qed
qed

lemma dijkstraLoop_skeleton: "skeleton (snd (dijkstraLoop n q nodes)) = skeleton nodes"
proof (induction n arbitrary: q nodes)
  case 0
  then show ?case by simp
next
  case (Suc n)
  show ?case
  proof (cases "findMin nodes q (None, \<infinity>)")
    case (Inl e)
    then show ?thesis by simp
  next
    case (Inr r)
    obtain uo ud where r: "r = (uo, ud)" by (cases r)
    show ?thesis
    proof (cases uo)
      case None
      with Inr r show ?thesis by simp
    next
      case (Some u)
      show ?thesis
      proof (cases "u = [] \<or> map_of nodes u = None")
        case True
        with Inr r Some show ?thesis by auto
      next
        case False
        then obtain unode where un: "u \<noteq> []" "map_of nodes u = Some unode" by auto
        obtain res nodes' where rx: "relax u ud (connectsTo unode) nodes = (res, nodes')"
          by (cases "relax u ud (connectsTo unode) nodes")
        then have sk: "skeleton nodes' = skeleton nodes"
          using relax_skeleton [of u ud "connectsTo unode" nodes] by simp
        show ?thesis
        proof (cases res)
          case (Inl e)
          with Inr r Some un rx sk show ?thesis by simp
        next
          case (Inr x)
          with \<open>findMin nodes q (None, \<infinity>) = Inr r\<close> r Some un rx sk Suc.IH [of "remove1 u q" nodes']
          show ?thesis by simp
        qed
      qed
    qed
  qed
qed

lemma skeleton_init:
  "skeleton (map (\<lambda>(n, node). (n, node\<lparr>dist := x, prev := y\<rparr>)) nodes) = skeleton nodes"
  by (induction nodes) (auto simp: skeleton_def)

lemma dijkstra_skeleton: "skeleton (snd (dijkstra nodes s)) = skeleton nodes"
proof -
  let ?init = "map (\<lambda>(n, node). (n, node\<lparr>dist := Some \<infinity>, prev := None\<rparr>)) nodes"
  show ?thesis
  proof (cases "map_of ?init s")
    case None
    then show ?thesis by (simp add: dijkstra_def Let_def skeleton_init)
  next
    case (Some src)
    have "skeleton (AList.update s (src\<lparr>dist := Some 0\<rparr>) ?init) = skeleton ?init"
      using Some by (rule skeleton_update) simp_all
    with Some show ?thesis
      by (simp add: dijkstra_def Let_def dijkstraLoop_skeleton skeleton_init)
  qed
qed

lemma findSolution_state:
  assumes "findSolution g s t = Some (r, g')"
  shows "g' = g \<or> g' = snd (dijkstra g s)"
  using assms
  by (auto simp: findSolution_def split: if_splits prod.splits sum.splits option.splits)

lemma findSolution_skeleton:
  assumes "findSolution g s t = Some (r, g')"
  shows "skeleton g' = skeleton g"
  using findSolution_state [OF assms] dijkstra_skeleton by auto

lemma findMin_result:
  "findMin nodes q (acc, ad) = Inr (Some u, ud) \<Longrightarrow>
     (acc = Some u \<and> ad = ud) \<or> (\<exists>un. map_of nodes u = Some un \<and> dist un = Some ud)"
proof (induction q arbitrary: acc ad)
  case Nil
  then show ?case by simp
next
  case (Cons n q)
  then show ?case
    by (fastforce split: option.splits if_splits)
qed

lemma enat_succ_less: "(ud::enat) + 1 < d \<Longrightarrow> ud < ud + 1"
  by (cases ud) (auto simp: one_enat_def)

lemma relax_prevInv:
  assumes "prevInv nodes" "map_of nodes u = Some un" "dist un = Some ud"
  shows "prevInv (snd (relax u ud vs nodes))"
  using assms
proof (induction vs arbitrary: nodes un)
  case Nil
  then show ?case by simp
next
  case (Cons v vs)
  show ?case
  proof (cases "map_of nodes v")
    case None
    with Cons.prems show ?thesis by (simp add: Let_def)
  next
    case (Some vnode)
    show ?thesis
    proof (cases "dist vnode")
      case None
      with Some Cons show ?thesis by (simp add: Let_def)
    next
      case (Some d)
      note dv = this
      show ?thesis
      proof (cases "ud + 1 < d")
        case False
        with \<open>map_of nodes v = Some vnode\<close> dv Cons show ?thesis by (simp add: Let_def)
      next
        case True
        let ?vn = "vnode\<lparr>dist := Some (ud + 1), prev := Some u\<rparr>"
        let ?nodes = "AList.update v ?vn nodes"
        have vu: "v \<noteq> u"
        proof
          assume "v = u"
          with Cons.prems(2,3) \<open>map_of nodes v = Some vnode\<close> dv have "d = ud" by simp
          with True show False by (cases ud) (auto simp: one_enat_def)
        qed
        have lt: "ud < ud + 1" using True by (rule enat_succ_less)
        have m: "map_of ?nodes = (map_of nodes)(v \<mapsto> ?vn)" by (rule update_conv')
        have u': "map_of ?nodes u = Some un" using vu Cons.prems(2) by (simp add: m)
        have inv': "prevInv ?nodes"
          unfolding prevInv_def
        proof (intro allI impI)
          fix w nd p
          assume a: "map_of ?nodes w = Some nd \<and> prev nd = Some p"
          show "\<exists>pn dp dw. map_of ?nodes p = Some pn \<and> dist pn = Some dp \<and> dist nd = Some dw \<and> dp < dw"
          proof (cases "w = v")
            case True
            with a m have "nd = ?vn" "p = u" by auto
            with u' Cons.prems(3) lt show ?thesis by auto
          next
            case False
            with a m have "map_of nodes w = Some nd" "prev nd = Some p" by auto
            with Cons.prems(1) obtain pn dp dw where
              pn: "map_of nodes p = Some pn" "dist pn = Some dp" "dist nd = Some dw" "dp < dw"
              unfolding prevInv_def by blast
            show ?thesis
            proof (cases "p = v")
              case True
              with pn \<open>map_of nodes v = Some vnode\<close> dv have "dp = d" by simp
              with True pn(3,4) \<open>ud + 1 < d\<close> m show ?thesis by auto
            next
              case False
              with pn m show ?thesis by auto
            qed
          qed
        qed
        from Cons.IH [OF inv' u' Cons.prems(3)] \<open>map_of nodes v = Some vnode\<close> dv True
        show ?thesis by (simp add: Let_def)
      qed
    qed
  qed
qed

lemma dijkstraLoop_prevInv:
  assumes "prevInv nodes"
  shows "prevInv (snd (dijkstraLoop n q nodes))"
  using assms
proof (induction n arbitrary: q nodes)
  case 0
  then show ?case by simp
next
  case (Suc n)
  show ?case
  proof (cases "findMin nodes q (None, \<infinity>)")
    case (Inl e)
    with Suc.prems show ?thesis by simp
  next
    case (Inr r)
    obtain uo ud where r: "r = (uo, ud)" by (cases r)
    show ?thesis
    proof (cases uo)
      case None
      with Inr r Suc.prems show ?thesis by simp
    next
      case (Some u)
      show ?thesis
      proof (cases "u = [] \<or> map_of nodes u = None")
        case True
        with Inr r Some Suc.prems show ?thesis by auto
      next
        case False
        then obtain unode where un: "u \<noteq> []" "map_of nodes u = Some unode" by auto
        from findMin_result [of nodes q None \<infinity> u ud] Inr r Some un
        have du: "dist unode = Some ud" by auto
        obtain res nodes' where rx: "relax u ud (connectsTo unode) nodes = (res, nodes')"
          by (cases "relax u ud (connectsTo unode) nodes")
        then have inv': "prevInv nodes'"
          using relax_prevInv [OF Suc.prems un(2) du, of "connectsTo unode"] by simp
        show ?thesis
        proof (cases res)
          case (Inl e)
          with Inr r Some un rx inv' show ?thesis by simp
        next
          case (Inr x)
          with \<open>findMin nodes q (None, \<infinity>) = Inr r\<close> r Some un rx Suc.IH [OF inv', of "remove1 u q"]
          show ?thesis by simp
        qed
      qed
    qed
  qed
qed

lemma map_of_init:
  "map_of (map (\<lambda>(n, node). (n, f node)) nodes) k = map_option f (map_of nodes k)"
  by (induction nodes) auto

lemma dijkstra_prevInv: "prevInv (snd (dijkstra nodes s))"
proof -
  let ?f = "\<lambda>node. node\<lparr>dist := Some \<infinity>, prev := None\<rparr>"
  let ?init = "map (\<lambda>(n, node). (n, ?f node)) nodes"
  have pn: "map_of ?init k = Some nd \<Longrightarrow> prev nd = None" for k nd
    by (auto simp: map_of_init)
  then have i0: "prevInv ?init" unfolding prevInv_def by fastforce
  show ?thesis
  proof (cases "map_of ?init s")
    case None
    with i0 show ?thesis by (simp add: dijkstra_def Let_def)
  next
    case (Some src)
    have "prevInv (AList.update s (src\<lparr>dist := Some 0\<rparr>) ?init)"
      unfolding prevInv_def using pn Some
      by (auto simp: update_conv' split: if_splits)
    with Some show ?thesis
      by (simp add: dijkstra_def Let_def dijkstraLoop_prevInv)
  qed
qed

lemma walk_terminates:
  assumes "prevInv nodes" "map_of nodes v = Some node"
  shows "\<exists>r. walk nodes node sol = Some r"
  using assms(2)
proof (induction "the (dist node)" arbitrary: v node sol rule: less_induct)
  case less
  show ?case
  proof (cases "prev node")
    case None
    then show ?thesis by (subst walk.simps) simp
  next
    case (Some p)
    show ?thesis
    proof (cases "p = []")
      case True
      with Some show ?thesis by (subst walk.simps) simp
    next
      case False
      from assms(1) less.prems Some obtain pn dp dv where
        pn: "map_of nodes p = Some pn" "dist pn = Some dp" "dist node = Some dv" "dp < dv"
        unfolding prevInv_def by blast
      then have "the (dist pn) < the (dist node)" by simp
      from less.hyps [OF this pn(1), of "p # sol"] obtain r where "walk nodes pn (p # sol) = Some r" ..
      with Some False pn(1) show ?thesis by (subst walk.simps) simp
    qed
  qed
qed

lemma findSolution_total: "\<exists>r g'. findSolution g s t = Some (r, g')"
proof (cases "parsePosition s \<noteq> None \<and> parsePosition t \<noteq> None")
  case False
  then show ?thesis by (auto simp: findSolution_def)
next
  case True
  obtain res g1 where d: "dijkstra g s = (res, g1)" by (cases "dijkstra g s")
  then have inv: "prevInv g1" using dijkstra_prevInv [of g s] by simp
  show ?thesis
  proof (cases res)
    case (Inl e)
    with True d show ?thesis by (simp add: findSolution_def)
  next
    case (Inr x)
    show ?thesis
    proof (cases "map_of g1 t")
      case None
      with True d Inr show ?thesis by (simp add: findSolution_def)
    next
      case (Some node)
      from walk_terminates [OF inv Some, of "[t]"] obtain w where "walk g1 node [t] = Some w" ..
      with True d Inr Some show ?thesis
        by (cases w) (simp_all add: findSolution_def)
    qed
  qed
qed

lemma keys_skeleton: "fst ` set g = fst ` set (skeleton g)"
proof -
  have "set (map fst g) = set (map fst (skeleton g))" by (simp only: skeleton_keys)
  then show ?thesis by simp
qed

lemma closedGraph_skeleton:
  "closedGraph g \<longleftrightarrow> (\<forall>e \<in> set (skeleton g). set (snd (snd (snd e))) \<subseteq> fst ` set g)"
  unfolding closedGraph_def skeleton_def by force

lemma closedGraph_cong:
  assumes "skeleton g' = skeleton g" "closedGraph g"
  shows "closedGraph g'"
proof -
  have "fst ` set g' = fst ` set g" using assms(1) by (simp add: keys_skeleton)
  with assms show ?thesis by (simp add: closedGraph_skeleton)
qed

lemma findMin_ok:
  "set q \<subseteq> fst ` set nodes \<Longrightarrow> \<exists>r. findMin nodes q acc = Inr r"
proof (induction q arbitrary: acc)
  case Nil
  then show ?case by simp
next
  case (Cons n q)
  from Cons.prems have "n \<in> fst ` set nodes" by simp
  then obtain node where "map_of nodes n = Some node" unfolding in_keys_iff by blast
  with Cons show ?case
    by (cases acc) (auto split: option.splits)
qed

lemma findMin_mem:
  "findMin nodes q (acc, ad) = Inr (Some u, ud) \<Longrightarrow> acc = Some u \<or> u \<in> set q"
proof (induction q arbitrary: acc ad)
  case Nil
  then show ?case by simp
next
  case (Cons n q)
  then show ?case by (fastforce split: option.splits if_splits)
qed

lemma keys_update: "map_of al k = Some v \<Longrightarrow> fst ` set (AList.update k v' al) = fst ` set al"
  unfolding dom_update using in_keys_iff [of k al] by auto

lemma relax_ok:
  "set vs \<subseteq> fst ` set nodes \<Longrightarrow> fst (relax u ud vs nodes) = Inr ()"
proof (induction vs arbitrary: nodes)
  case Nil
  then show ?case by simp
next
  case (Cons v vs)
  from Cons.prems have "v \<in> fst ` set nodes" by simp
  then obtain vnode where vn: "map_of nodes v = Some vnode" unfolding in_keys_iff by blast
  have "set vs \<subseteq> fst ` set (AList.update v x nodes)" for x
    using Cons.prems keys_update [OF vn] by simp
  with vn Cons show ?case
    by (auto simp: Let_def split: option.splits)
qed

lemma dijkstraLoop_ok:
  assumes "closedGraph nodes" "set q \<subseteq> fst ` set nodes"
  shows "\<exists>r. fst (dijkstraLoop n q nodes) = Inr r"
  using assms
proof (induction n arbitrary: q nodes)
  case 0
  then show ?case by simp
next
  case (Suc n)
  from findMin_ok [OF Suc.prems(2)] obtain r where fm: "findMin nodes q (None, \<infinity>) = Inr r" by blast
  obtain uo ud where r: "r = (uo, ud)" by (cases r)
  show ?case
  proof (cases uo)
    case None
    with fm r show ?thesis by simp
  next
    case (Some u)
    with fm r findMin_mem [of nodes q None \<infinity> u ud] have "u \<in> set q" by simp
    with Suc.prems(2) have "u \<in> fst ` set nodes" by blast
    then obtain unode where un: "map_of nodes u = Some unode"
      unfolding in_keys_iff by blast
    then have "(u, unode) \<in> set nodes" by (rule map_of_SomeD)
    with Suc.prems(1) have cs: "set (connectsTo unode) \<subseteq> fst ` set nodes"
      unfolding closedGraph_def by blast
    obtain res nodes' where rx: "relax u ud (connectsTo unode) nodes = (res, nodes')"
      by (cases "relax u ud (connectsTo unode) nodes")
    with relax_ok [OF cs, of u ud] have res: "res = Inr ()" by simp
    from rx relax_skeleton [of u ud "connectsTo unode" nodes] have sk: "skeleton nodes' = skeleton nodes"
      by simp
    then have c': "closedGraph nodes'" using Suc.prems(1) by (rule closedGraph_cong)
    have "fst ` set nodes' = fst ` set nodes" using sk by (simp add: keys_skeleton)
    with Suc.prems(2) have q': "set (remove1 u q) \<subseteq> fst ` set nodes'"
      using set_remove1_subset [of u q] by auto
    from Suc.IH [OF c' q'] fm r Some un rx res show ?thesis by auto
  qed
qed

lemma dijkstra_ok:
  assumes "closedGraph g" "s \<in> fst ` set g"
  shows "\<exists>r. fst (dijkstra g s) = Inr r"
proof -
  let ?init = "map (\<lambda>(n, node). (n, node\<lparr>dist := Some \<infinity>, prev := None\<rparr>)) g"
  from assms(2) obtain sn where "map_of g s = Some sn" unfolding in_keys_iff by blast
  then obtain src where src: "map_of ?init s = Some src" by (simp add: map_of_init)
  let ?g1 = "AList.update s (src\<lparr>dist := Some 0\<rparr>) ?init"
  have "skeleton ?g1 = skeleton ?init" using src by (rule skeleton_update) simp_all
  then have sk: "skeleton ?g1 = skeleton g" by (simp add: skeleton_init)
  then have c: "closedGraph ?g1" using assms(1) by (rule closedGraph_cong)
  have "set (map fst g) = fst ` set ?g1" using sk keys_skeleton [of ?g1] keys_skeleton [of g] by simp
  then have "set (map fst g) \<subseteq> fst ` set ?g1" by simp
  from dijkstraLoop_ok [OF c this, of "length g"] src show ?thesis
    by (simp add: dijkstra_def Let_def)
qed

lemma relax_source:
  assumes "map_of nodes s = Some sn" "dist sn = Some 0" "prev sn = None"
  shows "\<exists>sn'. map_of (snd (relax u ud vs nodes)) s = Some sn' \<and> dist sn' = Some 0 \<and> prev sn' = None"
  using assms
proof (induction vs arbitrary: nodes sn)
  case Nil
  then show ?case by simp
next
  case (Cons v vs)
  show ?case
  proof (cases "map_of nodes v")
    case None
    with Cons.prems show ?thesis by (simp add: Let_def)
  next
    case (Some vnode)
    show ?thesis
    proof (cases "\<exists>d. dist vnode = Some d \<and> ud + 1 < d")
      case False
      with Some Cons show ?thesis by (auto simp: Let_def split: option.splits)
    next
      case True
      then obtain d where d: "dist vnode = Some d" "ud + 1 < d" by blast
      have "v \<noteq> s"
      proof
        assume "v = s"
        with Cons.prems Some d have "ud + 1 < 0" by simp
        then show False by simp
      qed
      then have "map_of (AList.update v (vnode\<lparr>dist := Some (ud + 1), prev := Some u\<rparr>) nodes) s = Some sn"
        using Cons.prems(1) by (simp add: update_conv')
      from Cons.IH [OF this Cons.prems(2,3)] Some d show ?thesis by (simp add: Let_def)
    qed
  qed
qed

lemma dijkstraLoop_source:
  assumes "map_of nodes s = Some sn" "dist sn = Some 0" "prev sn = None"
  shows "\<exists>sn'. map_of (snd (dijkstraLoop n q nodes)) s = Some sn' \<and> dist sn' = Some 0 \<and> prev sn' = None"
  using assms
proof (induction n arbitrary: q nodes sn)
  case 0
  then show ?case by simp
next
  case (Suc n)
  show ?case
  proof (cases "findMin nodes q (None, \<infinity>)")
    case (Inl e)
    with Suc.prems show ?thesis by simp
  next
    case (Inr r)
    obtain uo ud where r: "r = (uo, ud)" by (cases r)
    show ?thesis
    proof (cases uo)
      case None
      with Inr r Suc.prems show ?thesis by simp
    next
      case (Some u)
      show ?thesis
      proof (cases "u = [] \<or> map_of nodes u = None")
        case True
        with Inr r Some Suc.prems show ?thesis by auto
      next
        case False
        then obtain unode where un: "u \<noteq> []" "map_of nodes u = Some unode" by auto
        obtain res nodes' where rx: "relax u ud (connectsTo unode) nodes = (res, nodes')"
          by (cases "relax u ud (connectsTo unode) nodes")
        with relax_source [OF Suc.prems, of u ud "connectsTo unode"] obtain sn' where
          s': "map_of nodes' s = Some sn'" "dist sn' = Some 0" "prev sn' = None" by auto
        show ?thesis
        proof (cases res)
          case (Inl e)
          with Inr r Some un rx s' show ?thesis by simp
        next
          case (Inr x)
          with \<open>findMin nodes q (None, \<infinity>) = Inr r\<close> r Some un rx Suc.IH [OF s', of "remove1 u q"]
          show ?thesis by simp
        qed
      qed
    qed
  qed
qed

lemma dijkstra_source:
  assumes "s \<in> fst ` set g"
  shows "\<exists>sn'. map_of (snd (dijkstra g s)) s = Some sn' \<and> dist sn' = Some 0 \<and> prev sn' = None"
proof -
  let ?init = "map (\<lambda>(n, node). (n, node\<lparr>dist := Some \<infinity>, prev := None\<rparr>)) g"
  from assms obtain sn where "map_of g s = Some sn" unfolding in_keys_iff by blast
  then obtain src where src: "map_of ?init s = Some src" "prev src = None"
    by (auto simp: map_of_init)
  let ?g1 = "AList.update s (src\<lparr>dist := Some 0\<rparr>) ?init"
  have "map_of ?g1 s = Some (src\<lparr>dist := Some 0\<rparr>)" by (simp add: update_conv')
  from dijkstraLoop_source [OF this, of "length g" "map fst g"] src show ?thesis
    by (simp add: dijkstra_def Let_def zero_enat_def)
qed

lemma findSolution_same:
  assumes "closedGraph g" "s \<in> fst ` set g" "parsePosition s \<noteq> None" "s \<noteq> []"
  shows "findSolution g s s = Some (Inr (Some [s]), snd (dijkstra g s))"
proof -
  obtain res g1 where d: "dijkstra g s = (res, g1)" by (cases "dijkstra g s")
  with dijkstra_ok [OF assms(1,2)] obtain x where res: "res = Inr x" by auto
  from dijkstra_source [OF assms(2)] d obtain sn where
    sn: "map_of g1 s = Some sn" "prev sn = None" by auto
  have "walk g1 sn [s] = Some (Inr [s])" using sn(2) by (subst walk.simps) simp
  with d res sn assms(3) show ?thesis by (simp add: findSolution_def)
qed

lemma graph_closedGraph: "closedGraph CastDuetGraphNodes"
  unfolding closedGraph_def using graph_closed graph_entry by blast

lemma FREE_key: "''FREE'' \<in> fst ` set CastDuetGraphNodes"
  using graph_keys [of "''FREE''"] by (simp add: FreeRingName_def)

lemma parse_FREE: "parsePosition ''FREE'' \<noteq> None"
  by (simp add: parsePosition_def)

lemma parse_outside: "parsePosition ''U(0,0)-(0,1)'' = Some (RingPosition ''U'' 0 0 0 1)"
  by (simp add: parsePosition_def isUD_def is04_def parseInt_def digitValue_def ringSizeOk_code)

lemma outside_not_key: "''U(0,0)-(0,1)'' \<notin> fst ` set CastDuetGraphNodes"
proof
  assume "''U(0,0)-(0,1)'' \<in> fst ` set CastDuetGraphNodes"
  then obtain p a b c d where v: "validPlacement p a b c d"
    and k: "''U(0,0)-(0,1)'' = getRingName p a b c d"
    unfolding graph_keys by (auto simp: FreeRingName_def)
  from valid_parse [OF v] k parse_outside have "p = ''U'' \<and> a = 0 \<and> b = 0 \<and> c = 0 \<and> d = 1"
    by simp
  with v show False by (simp add: validPlacement_def Ring_isFree_def isCellFree_def)
qed

lemma findSolution_source_absent:
  assumes "parsePosition s \<noteq> None" "parsePosition t \<noteq> None" "s \<notin> fst ` set g"
  shows "map_option fst (findSolution g s t) = Some (Inl TypeError)"
proof -
  from assms(3) have "map_of g s = None" by (simp add: map_of_eq_None_iff)
  then have "map_of (map (\<lambda>(n, node). (n, node\<lparr>dist := Some \<infinity>, prev := None\<rparr>)) g) s = None"
    by (simp add: map_of_init)
  with assms(1,2) show ?thesis
    by (simp add: findSolution_def dijkstra_def Let_def)
qed

lemma findSolution_target_absent:
  assumes "parsePosition s \<noteq> None" "parsePosition t \<noteq> None" "t \<notin> fst ` set g"
  shows "map_option fst (findSolution g s t) = Some (Inl TypeError)"
proof -
  obtain res g1 where d: "dijkstra g s = (res, g1)" by (cases "dijkstra g s")
  show ?thesis
  proof (cases res)
    case (Inl e)
    then have "res = Inl TypeError" by (cases e) simp
    with assms(1,2) d show ?thesis by (simp add: findSolution_def)
  next
    case (Inr x)
    from d dijkstra_skeleton [of g s] have "skeleton g1 = skeleton g" by simp
    then have "fst ` set g1 = fst ` set g" by (simp add: keys_skeleton)
    with assms(3) have "map_of g1 t = None" by (simp add: map_of_eq_None_iff)
    with assms(1,2) d Inr show ?thesis by (simp add: findSolution_def)
  qed
qed

lemma findSolution_unreachable_default:
  "findSolution twoNodes ''FREE'' ''U(1,1)-(1,2)'' =
     Some (Inr (Some [''U(1,1)-(1,2)'']),
           [(''FREE'', \<lparr> ring = None, name = ''FREE'', connectsTo = [], dist = Some 0, prev = None \<rparr>),
            (''U(1,1)-(1,2)'', \<lparr> ring = None, name = ''U(1,1)-(1,2)'', connectsTo = [],
                                 dist = Some \<infinity>, prev = None \<rparr>)])"
proof -
  have p: "parsePosition ''FREE'' \<noteq> None" "parsePosition ''U(1,1)-(1,2)'' \<noteq> None"
    by (simp_all add: parsePosition_def isUD_def is04_def parseInt_def digitValue_def ringSizeOk_code)
  have d: "dijkstra twoNodes ''FREE'' =
     (Inr None,
      [(''FREE'', \<lparr> ring = None, name = ''FREE'', connectsTo = [], dist = Some 0, prev = None \<rparr>),
       (''U(1,1)-(1,2)'', \<lparr> ring = None, name = ''U(1,1)-(1,2)'', connectsTo = [],
                            dist = Some \<infinity>, prev = None \<rparr>)])"
    by (simp add: dijkstra_def twoNodes_def Let_def numeral_2_eq_2)
  show ?thesis
    using p by (simp add: findSolution_def d walk.simps)
qed

text \<open>
  Claim C1. \<^verbatim>\<open>findSolution\<close> is claimed to return \<^verbatim>\<open>undefined\<close>, and never to throw,
  when a string is not a node of the graph. The string \<^verbatim>\<open>U(0,0)-(0,1)\<close> parses, since
  its cells are one step apart, but both cells are outside the frame, so the graph has
  no node of that name: as the start it makes \<^verbatim>\<open>dijkstra\<close> write a field of
  \<^verbatim>\<open>undefined\<close>, as the target it makes \<^verbatim>\<open>findSolution\<close> read one. Both calls raise
  a TypeError.
\<close>

theorem findSolution_absent_node_throws:
  "parsePosition ''U(0,0)-(0,1)'' = Some (RingPosition ''U'' 0 0 0 1)
   \<and> ''U(0,0)-(0,1)'' \<notin> fst ` set CastDuetGraphNodes
   \<and> map_option fst (findSolution CastDuetGraphNodes ''U(0,0)-(0,1)'' ''FREE'') = Some (Inl TypeError)
   \<and> map_option fst (findSolution CastDuetGraphNodes ''FREE'' ''U(0,0)-(0,1)'') = Some (Inl TypeError)"
proof -
  have po: "parsePosition ''U(0,0)-(0,1)'' \<noteq> None" by (simp add: parse_outside)
  from findSolution_source_absent [OF po parse_FREE outside_not_key]
    findSolution_target_absent [OF parse_FREE po outside_not_key]
    parse_outside outside_not_key
  show ?thesis by blast
qed

text \<open>
  Claim C2, as stated, fails: the call \<^verbatim>\<open>findSolution("FREE", "FREE")\<close> on the built
  graph returns the path of the single node FREE and leaves a table that differs from
  the built one. The FREE node has no distance before the call and distance 0 after it.
\<close>

theorem findSolution_changes_nodes:
  "findSolution CastDuetGraphNodes ''FREE'' ''FREE''
     = Some (Inr (Some [''FREE'']), snd (dijkstra CastDuetGraphNodes ''FREE''))
   \<and> snd (dijkstra CastDuetGraphNodes ''FREE'') \<noteq> CastDuetGraphNodes
   \<and> map_option dist (map_of CastDuetGraphNodes ''FREE'') = Some None
   \<and> map_option dist (map_of (snd (dijkstra CastDuetGraphNodes ''FREE'')) ''FREE'') = Some (Some 0)"
proof -
  have 1: "findSolution CastDuetGraphNodes ''FREE'' ''FREE''
     = Some (Inr (Some [''FREE'']), snd (dijkstra CastDuetGraphNodes ''FREE''))"
    using graph_closedGraph FREE_key parse_FREE by (rule findSolution_same) simp
  from graph_free have 3: "map_option dist (map_of CastDuetGraphNodes ''FREE'') = Some None"
    by (auto simp: FreeRingName_def)
  from dijkstra_source [OF FREE_key]
  have 4: "map_option dist (map_of (snd (dijkstra CastDuetGraphNodes ''FREE'')) ''FREE'') = Some (Some 0)"
    by auto
  from 3 4 have 2: "snd (dijkstra CastDuetGraphNodes ''FREE'') \<noteq> CastDuetGraphNodes" by auto
  from 1 2 3 4 show ?thesis by blast
qed

text \<open>
  Claim C2, amended. Every call of \<^verbatim>\<open>findSolution\<close>, on any node table and any two
  strings, ends (it returns or throws), and leaves the keys of the table, their order,
  and the ring, name and adjacency set of every node as they were. Only the fields
  \<open>dist\<close> and \<open>prev\<close>, which \<^verbatim>\<open>dijkstra\<close> rewrites, can change.
\<close>

theorem findSolution_frame:
  "\<exists>r g'. findSolution g s t = Some (r, g') \<and> skeleton g' = skeleton g"
proof -
  from findSolution_total [of g s t] obtain r g' where f: "findSolution g s t = Some (r, g')" by blast
  from findSolution_skeleton [OF f] f show ?thesis by blast
qed

theorem findSolution_frame_witness:
  "findSolution CastDuetGraphNodes ''FREE'' ''FREE''
     = Some (Inr (Some [''FREE'']), snd (dijkstra CastDuetGraphNodes ''FREE''))
   \<and> skeleton (snd (dijkstra CastDuetGraphNodes ''FREE'')) = skeleton CastDuetGraphNodes"
proof -
  have f: "findSolution CastDuetGraphNodes ''FREE'' ''FREE''
     = Some (Inr (Some [''FREE'']), snd (dijkstra CastDuetGraphNodes ''FREE''))"
    using graph_closedGraph FREE_key parse_FREE by (rule findSolution_same) simp
  with findSolution_frame [of CastDuetGraphNodes "''FREE''" "''FREE''"] show ?thesis by auto
qed

end
